theory Spec2Isabelle
  imports Main
begin

section \<open>JavaScript values and string primitives\<close>

text \<open>
  The server is a single JavaScript file (\<^verbatim>\<open>index.js\<close>; the later revision of the same
  file adds the subscriber set and logging). Strings are lists of code units; the
  device protocol is ASCII, so a code unit is a \<^typ>\<open>char\<close>. Every place where the
  source can raise (\<^verbatim>\<open>undefined.split\<close>, destructuring \<^verbatim>\<open>undefined\<close>, calling a
  missing method) is a branch returning \<open>Inl\<close> of a \<open>js_error\<close>.
\<close>

datatype js_error = TypeError string | Error string

datatype jsval = JUndefined | JNull | JBool bool | JNum int | JStr string | JObject

text \<open>JavaScript's \<^verbatim>\<open>ToBoolean\<close>, as used by \<^verbatim>\<open>!x\<close> and \<^verbatim>\<open>if (x)\<close>.\<close>

fun truthy :: "jsval \<Rightarrow> bool" where
  "truthy JUndefined = False"
| "truthy JNull = False"
| "truthy (JBool b) = b"
| "truthy (JNum n) = (n \<noteq> 0)"
| "truthy (JStr s) = (s \<noteq> [])"
| "truthy JObject = True"

text \<open>\<^verbatim>\<open>s.split(c)\<close> for a one-character separator: never empty, \<^verbatim>\<open>"".split(c)\<close> is \<^verbatim>\<open>[""]\<close>.\<close>

fun js_split :: "char \<Rightarrow> string \<Rightarrow> string list" where
  "js_split c [] = [[]]"
| "js_split c (x # xs) =
     (if x = c then [] # js_split c xs
      else (case js_split c xs of [] \<Rightarrow> [[x]] | y # ys \<Rightarrow> (x # y) # ys))"

text \<open>\<^verbatim>\<open>a[i]\<close>: \<^verbatim>\<open>undefined\<close> (here \<open>None\<close>) out of range.\<close>

fun js_index :: "'a list \<Rightarrow> nat \<Rightarrow> 'a option" where
  "js_index [] i = None"
| "js_index (x # xs) 0 = Some x"
| "js_index (x # xs) (Suc i) = js_index xs i"

text \<open>
  \<^verbatim>\<open>s.replace(c, r)\<close> with a string pattern of one character: only the first
  occurrence is replaced.
\<close>

fun js_replace :: "char \<Rightarrow> string \<Rightarrow> string \<Rightarrow> string" where
  "js_replace c r [] = []"
| "js_replace c r (x # xs) = (if x = c then r @ xs else x # js_replace c r xs)"

text \<open>\<^verbatim>\<open>s.endsWith(t)\<close>.\<close>

definition js_endsWith :: "string \<Rightarrow> string \<Rightarrow> bool" where
  "js_endsWith s t = (length t \<le> length s \<and> drop (length s - length t) s = t)"

text \<open>
  \<^verbatim>\<open>s.trim()\<close>: white space and line terminators are removed at both ends. Among the
  code units below 256 these are TAB, LF, VT, FF, CR, SPACE and NBSP.
\<close>

definition js_space :: "char \<Rightarrow> bool" where
  "js_space c = (of_char c \<in> {9, 10, 11, 12, 13, 32, 160 :: nat})"

definition js_trim :: "string \<Rightarrow> string" where
  "js_trim s = rev (dropWhile js_space (rev (dropWhile js_space s)))"

definition CRLF :: string where
  "CRLF = [CHR 0x0D, CHR 0x0A]"

section \<open>The status parser\<close>

text \<open>
  \<^verbatim>\<open>
  function getStickers(string) {
    if (!string || !string.includes('[')) return []
    string = string.split('[')[1]
    string = string.split(']')[0]
    return string.split(' ')
      .filter(x => x)
      .map(x => x.replace('d', ''))
      .filter(x => x !== '000')
      .map(x => x == '001' ? 'mist' : 'mask')
  }
  \<close>
  Calling \<^verbatim>\<open>.split\<close> on \<^verbatim>\<open>undefined\<close> raises a TypeError; both index reads are
  modelled with that branch.
\<close>

definition sticker_tag :: "string \<Rightarrow> string" where
  "sticker_tag x = (if x = ''001'' then ''mist'' else ''mask'')"

definition getStickers :: "string \<Rightarrow> js_error + string list" where
  "getStickers string =
     (if string = [] \<or> CHR ''['' \<notin> set string then Inr []
      else (case js_index (js_split CHR ''['' string) 1 of
              None \<Rightarrow> Inl (TypeError ''Cannot read properties of undefined'')
            | Some s1 \<Rightarrow>
               (case js_index (js_split CHR '']'' s1) 0 of
                  None \<Rightarrow> Inl (TypeError ''Cannot read properties of undefined'')
                | Some s2 \<Rightarrow>
                    Inr (map sticker_tag
                          (filter (\<lambda>x. x \<noteq> ''000'')
                            (map (js_replace CHR ''d'' [])
                              (filter (\<lambda>x. x \<noteq> []) (js_split CHR '' '' s2))))))))"

text \<open>
  The parser as the specification words it: the text between the first \<open>[\<close> and the
  first following \<open>]\<close>, split on single spaces, empty tokens dropped, every \<open>d\<close>
  stripped from each token, \<open>000\<close> dropped, the rest mapped to tags.
\<close>

definition bracketed :: "string \<Rightarrow> string" where
  "bracketed s =
     takeWhile (\<lambda>c. c \<noteq> CHR '']'')
       (takeWhile (\<lambda>c. c \<noteq> CHR ''['') (drop 1 (dropWhile (\<lambda>c. c \<noteq> CHR ''['') s)))"

definition strip_every_d :: "string \<Rightarrow> string" where
  "strip_every_d x = filter (\<lambda>c. c \<noteq> CHR ''d'') x"

definition getStickers_spec :: "string \<Rightarrow> string list" where
  "getStickers_spec s =
     (if CHR ''['' \<notin> set s then []
      else map sticker_tag
             (filter (\<lambda>x. x \<noteq> ''000'')
               (map strip_every_d
                 (filter (\<lambda>x. x \<noteq> []) (js_split CHR '' '' (bracketed s))))))"

section \<open>The dispatcher, the status-check path and the broadcast hub\<close>

text \<open>
  The program is single-threaded: its state changes only inside callbacks run by the
  event loop. Each callback of the source is a function on the state below, and the
  event loop is the environment that chooses which enabled callback runs next and at
  what time. A value of \<^verbatim>\<open>Date.now()\<close> is an \<open>int\<close> of milliseconds.

  Besides the variables of the source (\<open>commandQueue\<close>, \<open>isProcessingQueue\<close>,
  \<open>lastCommandTime\<close>, \<open>connectedClients\<close>) the state holds what the runtime holds for
  the program: the pending \<^verbatim>\<open>setTimeout\<close> callbacks with their earliest firing
  times, the \<^verbatim>\<open>port.write\<close> calls whose completion callback has not run yet, the
  \<^verbatim>\<open>once('data')\<close> listeners, the settled promises, and the two things the outside
  sees: the writes handed to the serial port and the frames sent to subscribers.
\<close>

definition RATE_LIMIT_MS :: int where
  "RATE_LIMIT_MS = 300"

record entry =
  command :: string
  promise :: nat

text \<open>\<open>SendResult True c\<close> is the object \<^verbatim>\<open>{ success: true, command: c }\<close>.\<close>

datatype send_result = SendResult bool string

datatype 'a settled = Resolved 'a | Rejected string

datatype writer = Queued | Direct

record client =
  client_id :: nat
  readyState :: nat

record world =
  commandQueue :: "entry list"
  isProcessingQueue :: bool
  lastCommandTime :: int
  connectedClients :: "client list"
  timers :: "int list"
  inflight :: "entry list"
  direct_inflight :: "nat list"
  listeners :: "nat list"
  port_writes :: "(int \<times> writer \<times> string) list"
  promises :: "nat \<Rightarrow> send_result settled option"
  next_promise :: nat
  send_promises :: "nat \<Rightarrow> string settled option"
  next_send_promise :: nat
  next_client :: nat
  delivered :: "(nat \<times> string) list"
  clock :: int

definition init :: world where
  "init = \<lparr> commandQueue = [], isProcessingQueue = False, lastCommandTime = 0,
            connectedClients = [], timers = [], inflight = [], direct_inflight = [],
            listeners = [], port_writes = [], promises = (\<lambda>_. None), next_promise = 0,
            send_promises = (\<lambda>_. None), next_send_promise = 0, next_client = 0,
            delivered = [], clock = 0 \<rparr>"

text \<open>Resolving or rejecting a promise that is already settled has no effect.\<close>

definition settle :: "nat \<Rightarrow> 'a settled \<Rightarrow> (nat \<Rightarrow> 'a settled option) \<Rightarrow> (nat \<Rightarrow> 'a settled option)" where
  "settle p r m = (if m p = None then m(p := Some r) else m)"

text \<open>
  \<^verbatim>\<open>
  function processQueue() {
    if (isProcessingQueue || commandQueue.length === 0) return;
    isProcessingQueue = true;
    const now = Date.now();
    const timeSinceLastCommand = now - lastCommandTime;
    const delay = Math.max(0, RATE_LIMIT_MS - timeSinceLastCommand);
    setTimeout(() => { ... }, delay);
  }
  \<close>
  The timer registered at \<open>now\<close> with \<open>delay\<close> fires no earlier than \<open>now + delay\<close>.
\<close>

definition processQueue :: "int \<Rightarrow> world \<Rightarrow> world" where
  "processQueue now w =
     (if isProcessingQueue w \<or> length (commandQueue w) = 0 then w
      else (let timeSinceLastCommand = now - lastCommandTime w;
                delay = max 0 (RATE_LIMIT_MS - timeSinceLastCommand)
            in w\<lparr>isProcessingQueue := True, timers := timers w @ [now + delay]\<rparr>))"

text \<open>
  The body of the timer callback up to the call of \<^verbatim>\<open>port.write\<close>:
  \<^verbatim>\<open>
    const { command, resolve, reject } = commandQueue.shift();
    lastCommandTime = Date.now();
    port.write(command, (err) => { ... });
  \<close>
  \<^verbatim>\<open>shift()\<close> on an empty array is \<^verbatim>\<open>undefined\<close>, and destructuring it raises.
\<close>

definition timer_callback :: "int \<Rightarrow> world \<Rightarrow> js_error + world" where
  "timer_callback now w =
     (case commandQueue w of
        [] \<Rightarrow> Inl (TypeError ''Cannot destructure property of undefined'')
      | e # rest \<Rightarrow>
          Inr (w\<lparr>commandQueue := rest, lastCommandTime := now,
                 inflight := inflight w @ [e],
                 port_writes := port_writes w @ [(now, Queued, command e)]\<rparr>))"

text \<open>
  The completion callback of that write:
  \<^verbatim>\<open>
    (err) => {
      if (err) { reject('Error sending command: ' + err.message); }
      else { resolve({ success: true, command: command.trim() }); }
      isProcessingQueue = false;
      processQueue();
    }
  \<close>
\<close>

definition write_callback :: "entry \<Rightarrow> string option \<Rightarrow> int \<Rightarrow> world \<Rightarrow> world" where
  "write_callback e err now w =
     (let w1 = (case err of
                  Some message \<Rightarrow>
                    w\<lparr>promises := settle (promise e)
                          (Rejected (''Error sending command: '' @ message)) (promises w)\<rparr>
                | None \<Rightarrow>
                    w\<lparr>promises := settle (promise e)
                          (Resolved (SendResult True (js_trim (command e)))) (promises w)\<rparr>)
      in processQueue now (w1\<lparr>isProcessingQueue := False\<rparr>))"

text \<open>
  \<^verbatim>\<open>
  function queueCommand(command) {
    return new Promise((resolve, reject) => {
      commandQueue.push({ command, resolve, reject });
      processQueue();
    });
  }
  \<close>
\<close>

definition queueCommand :: "string \<Rightarrow> int \<Rightarrow> world \<Rightarrow> nat \<times> world" where
  "queueCommand cmd now w =
     (let p = next_promise w
      in (p, processQueue now
               (w\<lparr>commandQueue := commandQueue w @ [\<lparr>command = cmd, promise = p\<rparr>],
                  next_promise := Suc p\<rparr>)))"

text \<open>
  \<^verbatim>\<open>
  async function sendCommand(command) {
    return new Promise((resolve, reject) => {
      port.write(command, (err) => {
        if (err) { return reject('Error sending command: ' + err.message); }
      });
      const parser = port.pipe(new ReadlineParser({ delimiter: '\r\n' }));
      parser.once('data', (response) => { resolve(response); });
    });
  }
  async function checkRFIDStatus(xTalkChannel = '008') {
    const command = `X${xTalkChannel}B[]\r\n`;
    try { const response = await sendCommand(command); return response; }
    catch (error) { return null; }
  }
  \<close>
\<close>

definition sendCommand :: "string \<Rightarrow> int \<Rightarrow> world \<Rightarrow> nat \<times> world" where
  "sendCommand cmd now w =
     (let p = next_send_promise w
      in (p, w\<lparr>port_writes := port_writes w @ [(now, Direct, cmd)],
                direct_inflight := direct_inflight w @ [p],
                listeners := listeners w @ [p],
                next_send_promise := Suc p\<rparr>))"

definition send_write_callback :: "nat \<Rightarrow> string option \<Rightarrow> world \<Rightarrow> world" where
  "send_write_callback p err w =
     (case err of
        Some message \<Rightarrow>
          w\<lparr>send_promises := settle p (Rejected (''Error sending command: '' @ message))
                                (send_promises w)\<rparr>
      | None \<Rightarrow> w)"

definition checkRFIDStatus :: "string \<Rightarrow> int \<Rightarrow> world \<Rightarrow> nat \<times> world" where
  "checkRFIDStatus xTalkChannel now w =
     sendCommand (''X'' @ xTalkChannel @ ''B[]'' @ CRLF) now w"

text \<open>What \<^verbatim>\<open>checkRFIDStatus\<close> returns once the promise of \<^verbatim>\<open>sendCommand\<close> is settled.\<close>

fun checkRFIDStatus_return :: "string settled \<Rightarrow> jsval" where
  "checkRFIDStatus_return (Resolved response) = JStr response"
| "checkRFIDStatus_return (Rejected error) = JNull"

text \<open>
  The broadcast of one device line, from the later revision of the file:
  \<^verbatim>\<open>
  parser.on('data', (data) => {
    connectedClients.forEach((client) => {
      if (client.readyState === 1) { client.send(data); }
    });
  });
  \<close>
  \<^verbatim>\<open>client.send\<close> belongs to the WebSocket library. It is modelled at its most
  hostile: it raises on every connection that is not open.
\<close>

definition ws_send :: "client \<Rightarrow> string \<Rightarrow> js_error + (nat \<times> string)" where
  "ws_send c data =
     (if readyState c = 1 then Inr (client_id c, data)
      else Inl (Error ''WebSocket is not open''))"

fun broadcast :: "string \<Rightarrow> client list \<Rightarrow> js_error + (nat \<times> string) list" where
  "broadcast data [] = Inr []"
| "broadcast data (c # cs) =
     (if readyState c = 1
      then (case ws_send c data of
              Inl e \<Rightarrow> Inl e
            | Inr d \<Rightarrow> (case broadcast data cs of Inl e \<Rightarrow> Inl e | Inr ds \<Rightarrow> Inr (d # ds)))
      else broadcast data cs)"

text \<open>
  One line from the device: the top-level listener broadcasts it, and the
  \<^verbatim>\<open>once('data')\<close> listener of every pending \<^verbatim>\<open>sendCommand\<close> resolves with it.
\<close>

definition on_data :: "string \<Rightarrow> world \<Rightarrow> js_error + world" where
  "on_data data w =
     (case broadcast data (connectedClients w) of
        Inl e \<Rightarrow> Inl e
      | Inr ds \<Rightarrow>
          Inr (w\<lparr>delivered := delivered w @ ds,
                 send_promises := fold (\<lambda>p. settle p (Resolved data)) (listeners w)
                                    (send_promises w),
                 listeners := []\<rparr>))"

text \<open>
  \<^verbatim>\<open>
  wss.on('connection', (ws) => {
    connectedClients.add(ws);
    ws.on('close', () => { connectedClients.delete(ws); });
    ws.on('error', (error) => { connectedClients.delete(ws); });
  });
  \<close>
\<close>

definition on_connection :: "world \<Rightarrow> world" where
  "on_connection w =
     w\<lparr>connectedClients := connectedClients w @ [\<lparr>client_id = next_client w, readyState = 1\<rparr>],
       next_client := Suc (next_client w)\<rparr>"

definition on_close :: "nat \<Rightarrow> world \<Rightarrow> world" where
  "on_close cid w = w\<lparr>connectedClients := filter (\<lambda>c. client_id c \<noteq> cid) (connectedClients w)\<rparr>"

definition set_readyState :: "nat \<Rightarrow> nat \<Rightarrow> world \<Rightarrow> world" where
  "set_readyState cid n w =
     w\<lparr>connectedClients :=
         map (\<lambda>c. if client_id c = cid then c\<lparr>readyState := n\<rparr> else c) (connectedClients w)\<rparr>"

subsection \<open>The event loop\<close>

datatype event =
    QueueCommand string
  | Timeout nat
  | WriteDone nat "string option"
  | CheckRFIDStatus string
  | SendWriteDone nat "string option"
  | Data string
  | WsConnection
  | WsReadyState nat nat
  | WsClose nat

definition drop_nth :: "nat \<Rightarrow> 'a list \<Rightarrow> 'a list" where
  "drop_nth i xs = take i xs @ drop (Suc i) xs"

text \<open>
  \<open>handle ev now w\<close> runs the callback of \<open>ev\<close> at time \<open>now\<close>. \<open>None\<close>: the event
  cannot happen in \<open>w\<close> (no such timer, or it is not due; no such outstanding write).
  \<open>Some (Inl e)\<close>: the callback raises \<open>e\<close>.
\<close>

fun handle :: "event \<Rightarrow> int \<Rightarrow> world \<Rightarrow> (js_error + world) option" where
  "handle (QueueCommand cmd) now w = Some (Inr (snd (queueCommand cmd now w)))"
| "handle (Timeout i) now w =
     (if i < length (timers w) \<and> timers w ! i \<le> now
      then Some (timer_callback now (w\<lparr>timers := drop_nth i (timers w)\<rparr>))
      else None)"
| "handle (WriteDone i err) now w =
     (if i < length (inflight w)
      then Some (Inr (write_callback (inflight w ! i) err now
                        (w\<lparr>inflight := drop_nth i (inflight w)\<rparr>)))
      else None)"
| "handle (CheckRFIDStatus xTalkChannel) now w =
     Some (Inr (snd (checkRFIDStatus xTalkChannel now w)))"
| "handle (SendWriteDone i err) now w =
     (if i < length (direct_inflight w)
      then Some (Inr (send_write_callback (direct_inflight w ! i) err
                        (w\<lparr>direct_inflight := drop_nth i (direct_inflight w)\<rparr>)))
      else None)"
| "handle (Data line) now w = Some (on_data line w)"
| "handle WsConnection now w = Some (Inr (on_connection w))"
| "handle (WsReadyState cid n) now w = Some (Inr (set_readyState cid n w))"
| "handle (WsClose cid) now w = Some (Inr (on_close cid w))"

text \<open>Time does not run backwards between two events.\<close>

definition step :: "int \<times> event \<Rightarrow> world \<Rightarrow> (js_error + world) option" where
  "step tev w =
     (if fst tev < clock w then None else handle (snd tev) (fst tev) (w\<lparr>clock := fst tev\<rparr>))"

fun exec :: "(int \<times> event) list \<Rightarrow> world \<Rightarrow> (js_error + world) option" where
  "exec [] w = Some (Inr w)"
| "exec (tev # rest) w =
     (case step tev w of
        None \<Rightarrow> None
      | Some (Inl e) \<Rightarrow> Some (Inl e)
      | Some (Inr w') \<Rightarrow> exec rest w')"

text \<open>The state after a run from the initial state (the initial state if there is none).\<close>

definition final :: "(int \<times> event) list \<Rightarrow> world" where
  "final evs = (case exec evs init of Some (Inr w) \<Rightarrow> w | _ \<Rightarrow> init)"

subsection \<open>Observations\<close>

text \<open>The writes issued by the dispatcher, in issue order: time and payload.\<close>

fun queued_of :: "(int \<times> writer \<times> string) list \<Rightarrow> (int \<times> string) list" where
  "queued_of [] = []"
| "queued_of ((t, Queued, c) # rest) = (t, c) # queued_of rest"
| "queued_of ((t, Direct, c) # rest) = queued_of rest"

definition queue_writes :: "world \<Rightarrow> (int \<times> string) list" where
  "queue_writes w = queued_of (port_writes w)"

text \<open>The commands passed to \<^verbatim>\<open>queueCommand\<close> during a run, in call order.\<close>

fun enqueued :: "(int \<times> event) list \<Rightarrow> string list" where
  "enqueued [] = []"
| "enqueued ((t, QueueCommand cmd) # rest) = cmd # enqueued rest"
| "enqueued (_ # rest) = enqueued rest"

section \<open>The HTTP handlers\<close>

datatype body =
    JsonError string
  | JsonResult send_result
  | JsonTags "string list"
  | Text string

datatype response = Response nat body

text \<open>
  An \<^verbatim>\<open>async\<close> handler either answers at once or is suspended at its \<^verbatim>\<open>await\<close> on
  a promise; what it answers when the promise is settled is a second function.
  \<^verbatim>\<open>
  app.post('/send-command', async (req, res) => {
    const { command } = req.body;
    if (!command) {
      return res.status(400).json({ error: 'Command is required' });
    }
    try {
      const formattedCommand = command.endsWith('\r\n') ? command : command + '\r\n';
      const result = await queueCommand(formattedCommand);
      res.json(result);
    } catch (error) {
      res.status(500).json({ error: error.toString() });
    }
  });
  \<close>
  The argument is the \<^verbatim>\<open>command\<close> field of the parsed body (\<open>JUndefined\<close> when the
  field is absent). A truthy value that is not a string has no \<^verbatim>\<open>endsWith\<close>; the
  TypeError is caught by the handler's own \<^verbatim>\<open>catch\<close>.
\<close>

datatype handler_step = Respond response | Await nat

definition formattedCommand :: "string \<Rightarrow> string" where
  "formattedCommand cmd = (if js_endsWith cmd CRLF then cmd else cmd @ CRLF)"

definition post_send_command :: "jsval \<Rightarrow> int \<Rightarrow> world \<Rightarrow> handler_step \<times> world" where
  "post_send_command cmd now w =
     (if \<not> truthy cmd then (Respond (Response 400 (JsonError ''Command is required'')), w)
      else (case cmd of
              JStr c \<Rightarrow> (case queueCommand (formattedCommand c) now w of
                           (p, w') \<Rightarrow> (Await p, w'))
            | _ \<Rightarrow> (Respond (Response 500
                       (JsonError ''TypeError: command.endsWith is not a function'')), w)))"

fun post_send_command_reply :: "send_result settled \<Rightarrow> response" where
  "post_send_command_reply (Resolved result) = Response 200 (JsonResult result)"
| "post_send_command_reply (Rejected error) = Response 500 (JsonError error)"

text \<open>
  \<^verbatim>\<open>
  app.get('/check-rfid-status', async (req, res) => {
    const { channel } = req.query;
    const xTalkChannel = channel || '008';
    const status = await checkRFIDStatus(xTalkChannel);
    if (status) { res.send(getStickers(status)); }
    else { res.status(500).send('Failed to check RFID status'); }
  });
  \<close>
\<close>

definition get_check_rfid_status :: "string option \<Rightarrow> int \<Rightarrow> world \<Rightarrow> handler_step \<times> world" where
  "get_check_rfid_status channel now w =
     (let xTalkChannel = (case channel of None \<Rightarrow> ''008''
                          | Some c \<Rightarrow> if c = [] then ''008'' else c)
      in case checkRFIDStatus xTalkChannel now w of (p, w') \<Rightarrow> (Await p, w'))"

definition check_rfid_status_respond :: "jsval \<Rightarrow> js_error + response" where
  "check_rfid_status_respond status =
     (if truthy status
      then (case status of
              JStr s \<Rightarrow> (case getStickers s of
                           Inl e \<Rightarrow> Inl e
                         | Inr tags \<Rightarrow> Inr (Response 200 (JsonTags tags)))
            | _ \<Rightarrow> Inl (TypeError ''string.includes is not a function''))
      else Inr (Response 500 (Text ''Failed to check RFID status'')))"

definition check_rfid_status_reply :: "string settled \<Rightarrow> js_error + response" where
  "check_rfid_status_reply outcome = check_rfid_status_respond (checkRFIDStatus_return outcome)"

section \<open>Invariants and schedules\<close>

text \<open>
  \<open>spaced g ts\<close>: each time of \<open>ts\<close> is at least \<open>g\<close> after the one before it.
\<close>

fun spaced :: "int \<Rightarrow> int list \<Rightarrow> bool" where
  "spaced g (a # b # r) = (a + g \<le> b \<and> spaced g (b # r))"
| "spaced g _ = True"

text \<open>
  What holds of the dispatcher's variables and of the runtime's timers and outstanding
  writes between any two callbacks: the flag is set exactly while one timer or one
  write of the dispatcher is pending, a pending timer has an entry to pop, it is due
  no earlier than one rate limit after the last issue, and the issue times logged so
  far are spaced by the rate limit.
\<close>

definition flow_inv :: "world \<Rightarrow> bool" where
  "flow_inv w \<longleftrightarrow>
     length (timers w) + length (inflight w) = (if isProcessingQueue w then 1 else 0)
   \<and> (timers w \<noteq> [] \<longrightarrow> commandQueue w \<noteq> [])
   \<and> lastCommandTime w \<le> clock w
   \<and> (\<forall>d\<in>set (timers w). lastCommandTime w + RATE_LIMIT_MS \<le> d)
   \<and> (queue_writes w \<noteq> [] \<longrightarrow> fst (last (queue_writes w)) = lastCommandTime w)
   \<and> spaced RATE_LIMIT_MS (map fst (queue_writes w))"

text \<open>
  The promises of the entries still queued or being written are pending and pairwise
  different.
\<close>

definition promise_inv :: "world \<Rightarrow> bool" where
  "promise_inv w \<longleftrightarrow>
     (\<forall>e\<in>set (inflight w @ commandQueue w). promise e < next_promise w)
   \<and> (\<forall>e\<in>set (inflight w @ commandQueue w). promises w (promise e) = None)
   \<and> (\<forall>p. next_promise w \<le> p \<longrightarrow> promises w p = None)
   \<and> distinct (map promise (inflight w @ commandQueue w))"

definition both_inv :: "world \<Rightarrow> bool" where
  "both_inv w \<longleftrightarrow> flow_inv w \<and> promise_inv w"

text \<open>
  The state in which the completion callback calls \<^verbatim>\<open>processQueue\<close> again, when the
  completed write was the only outstanding one, and the value its promise is settled
  with.
\<close>

definition completed :: "entry \<Rightarrow> string option \<Rightarrow> world \<Rightarrow> world" where
  "completed e err w =
     w\<lparr>inflight := [],
       promises := settle (promise e)
          (case err of
             Some message \<Rightarrow> Rejected (''Error sending command: '' @ message)
           | None \<Rightarrow> Resolved (SendResult True (js_trim (command e))))
          (promises w),
       isProcessingQueue := False\<rparr>"

fun write_outcome :: "entry \<Rightarrow> string option \<Rightarrow> send_result settled" where
  "write_outcome e None = Resolved (SendResult True (js_trim (command e)))"
| "write_outcome e (Some message) = Rejected (''Error sending command: '' @ message)"

text \<open>
  A schedule that serves a queue of pending entries: for each entry the timer fires
  one rate limit after the previous event and the write completes at once, with the
  given result (\<open>None\<close> for success, \<open>Some message\<close> for a failure).
\<close>

fun drain :: "int \<Rightarrow> string option list \<Rightarrow> (int \<times> event) list" where
  "drain t [] = []"
| "drain t (r # rs) = (t + 300, Timeout 0) # (t + 300, WriteDone 0 r) # drain (t + 300) rs"

section \<open>Facts about the string primitives\<close>

lemma js_split_nonempty: "js_split c s \<noteq> []"
  by (induction s) (auto split: list.splits)

lemma js_index_0: "xs \<noteq> [] \<Longrightarrow> js_index xs 0 = Some (hd xs)"
  by (cases xs) auto

lemma js_split_hd: "hd (js_split c s) = takeWhile (\<lambda>x. x \<noteq> c) s"
  by (induction s) (auto split: list.splits simp: js_split_nonempty)

lemma js_split_second:
  "c \<in> set s \<Longrightarrow>
   js_index (js_split c s) 1 =
     Some (takeWhile (\<lambda>x. x \<noteq> c) (drop 1 (dropWhile (\<lambda>x. x \<noteq> c) s)))"
proof (induction s)
  case Nil
  then show ?case by simp
next
  case (Cons x xs)
  show ?case
  proof (cases "x = c")
    case True
    then show ?thesis
      using js_split_nonempty [of c xs] js_split_hd [of c xs]
      by (cases "js_split c xs") auto
  next
    case False
    with Cons have "c \<in> set xs" by simp
    with Cons.IH False show ?thesis
      using js_split_nonempty [of c xs]
      by (cases "js_split c xs") auto
  qed
qed

lemma js_replace_empty: "js_replace c [] x = remove1 c x"
  by (induction x) auto

lemma getStickers_unfold:
  assumes "CHR ''['' \<in> set s"
  shows "getStickers s =
     Inr (map sticker_tag
           (filter (\<lambda>x. x \<noteq> ''000'')
             (map (remove1 CHR ''d'')
               (filter (\<lambda>x. x \<noteq> []) (js_split CHR '' '' (bracketed s))))))"
proof -
  from assms have ne: "s \<noteq> []" by auto
  have one: "js_index (js_split CHR ''['' s) (Suc 0) =
      Some (takeWhile (\<lambda>c. c \<noteq> CHR ''['') (drop (Suc 0) (dropWhile (\<lambda>c. c \<noteq> CHR ''['') s)))"
    using js_split_second [OF assms] by simp
  have two: "js_index (js_split CHR '']'' t) 0 = Some (takeWhile (\<lambda>c. c \<noteq> CHR '']'') t)" for t
    using js_index_0 [OF js_split_nonempty, of "CHR '']''" t] js_split_hd [of "CHR '']''" t]
    by simp
  have rep: "js_replace CHR ''d'' [] = remove1 CHR ''d''"
    by (rule ext) (rule js_replace_empty)
  show ?thesis
    unfolding getStickers_def bracketed_def using assms ne
    by (simp add: one two rep)
qed

lemma getStickers_no_bracket: "CHR ''['' \<notin> set s \<Longrightarrow> getStickers s = Inr []"
  by (simp add: getStickers_def)

section \<open>Facts about the dispatcher\<close>

lemma spaced_snoc: "spaced g (xs @ [t]) = (spaced g xs \<and> (xs \<noteq> [] \<longrightarrow> last xs + g \<le> t))"
  by (induction g xs rule: spaced.induct) auto

lemma spaced_nth: "spaced g xs \<Longrightarrow> Suc i < length xs \<Longrightarrow> xs ! i + g \<le> xs ! Suc i"
proof (induction g xs arbitrary: i rule: spaced.induct)
  case (1 g a b r)
  then show ?case by (cases i) auto
qed auto

lemma queued_of_append: "queued_of (xs @ ys) = queued_of xs @ queued_of ys"
  by (induction xs rule: queued_of.induct) auto

lemma init_flow: "flow_inv init"
  by (simp add: flow_inv_def init_def queue_writes_def)

lemma init_promise: "promise_inv init"
  by (simp add: promise_inv_def init_def)

lemma flow_clock: "flow_inv w \<Longrightarrow> clock w \<le> t \<Longrightarrow> flow_inv (w\<lparr>clock := t\<rparr>)"
  by (simp add: flow_inv_def queue_writes_def)

lemma promise_clock: "promise_inv w \<Longrightarrow> promise_inv (w\<lparr>clock := t\<rparr>)"
  by (simp add: promise_inv_def)

lemma processQueue_flow: "flow_inv w \<Longrightarrow> flow_inv (processQueue now w)"
  by (auto simp: flow_inv_def processQueue_def queue_writes_def RATE_LIMIT_MS_def Let_def)

lemma processQueue_promise: "promise_inv w \<Longrightarrow> promise_inv (processQueue now w)"
  by (simp add: promise_inv_def processQueue_def Let_def)

lemma queueCommand_flow: "flow_inv w \<Longrightarrow> flow_inv (snd (queueCommand cmd now w))"
proof -
  assume a: "flow_inv w"
  have "flow_inv (w\<lparr>commandQueue := commandQueue w @ [\<lparr>command = cmd, promise = next_promise w\<rparr>],
                  next_promise := Suc (next_promise w)\<rparr>)"
    using a by (simp add: flow_inv_def queue_writes_def)
  then show ?thesis by (simp add: queueCommand_def Let_def processQueue_flow)
qed

lemma queueCommand_promise: "promise_inv w \<Longrightarrow> promise_inv (snd (queueCommand cmd now w))"
proof -
  assume a: "promise_inv w"
  have "promise_inv (w\<lparr>commandQueue := commandQueue w @ [\<lparr>command = cmd, promise = next_promise w\<rparr>],
                  next_promise := Suc (next_promise w)\<rparr>)"
    using a by (auto simp: promise_inv_def less_Suc_eq)
  then show ?thesis by (simp add: queueCommand_def Let_def processQueue_promise)
qed

lemma flow_length1:
  assumes "flow_inv w"
  shows "length (timers w) + length (inflight w) \<le> 1"
  using assms by (auto simp: flow_inv_def split: if_splits)

lemma timeout_shape:
  assumes "flow_inv w" "handle (Timeout i) now w = Some r"
  shows "\<exists>d e rest. i = 0 \<and> timers w = [d] \<and> d \<le> now \<and> inflight w = [] \<and> commandQueue w = e # rest
     \<and> r = Inr (w\<lparr>timers := [], commandQueue := rest, lastCommandTime := now,
                 inflight := [e],
                 port_writes := port_writes w @ [(now, Queued, command e)]\<rparr>)"
proof -
  from assms(2) have i: "i < length (timers w)" and due: "timers w ! i \<le> now"
    by (auto split: if_splits)
  from i flow_length1 [OF assms(1)]
  have "length (timers w) = 1 \<and> length (inflight w) = 0 \<and> i = 0"
    by linarith
  then have l: "length (timers w) = 1" "inflight w = []" "i = 0"
    by auto
  then obtain d where d: "timers w = [d]" by (cases "timers w") auto
  with assms(1) obtain e rest where q: "commandQueue w = e # rest"
    by (cases "commandQueue w") (auto simp: flow_inv_def)
  from d due l have dn: "d \<le> now" by simp
  have r: "r = Inr (w\<lparr>timers := [], commandQueue := rest, lastCommandTime := now,
                 inflight := [e],
                 port_writes := port_writes w @ [(now, Queued, command e)]\<rparr>)"
    using assms(2) i due d l q by (simp add: timer_callback_def drop_nth_def)
  from l d dn q r show ?thesis by blast
qed

lemma timeout_flow:
  assumes "flow_inv w" "clock w = now" "handle (Timeout i) now w = Some r"
  shows "\<exists>w'. r = Inr w' \<and> flow_inv w'"
proof -
  from timeout_shape [OF assms(1,3)] obtain d e rest where
    s: "timers w = [d]" "d \<le> now" "inflight w = []" "commandQueue w = e # rest"
    and r: "r = Inr (w\<lparr>timers := [], commandQueue := rest, lastCommandTime := now,
                 inflight := [e],
                 port_writes := port_writes w @ [(now, Queued, command e)]\<rparr>)"
    by blast
  from assms(1) s have busy: "isProcessingQueue w"
    by (auto simp: flow_inv_def split: if_splits)
  from assms(1) s have gap: "lastCommandTime w + RATE_LIMIT_MS \<le> now"
    by (auto simp: flow_inv_def)
  from assms(1) have lastw: "queue_writes w \<noteq> [] \<longrightarrow> fst (last (queue_writes w)) = lastCommandTime w"
    and sp: "spaced RATE_LIMIT_MS (map fst (queue_writes w))"
    by (auto simp: flow_inv_def)
  have "flow_inv (w\<lparr>timers := [], commandQueue := rest, lastCommandTime := now,
                 inflight := [e],
                 port_writes := port_writes w @ [(now, Queued, command e)]\<rparr>)"
    using busy gap lastw sp assms(2)
    by (simp add: flow_inv_def queue_writes_def queued_of_append spaced_snoc last_map)
  with r show ?thesis by blast
qed

lemma timeout_promise:
  assumes "flow_inv w" "promise_inv w" "handle (Timeout i) now w = Some r"
  shows "\<exists>w'. r = Inr w' \<and> promise_inv w'"
proof -
  from timeout_shape [OF assms(1,3)] obtain d e rest where
    s: "inflight w = []" "commandQueue w = e # rest"
    and r: "r = Inr (w\<lparr>timers := [], commandQueue := rest, lastCommandTime := now,
                 inflight := [e],
                 port_writes := port_writes w @ [(now, Queued, command e)]\<rparr>)"
    by blast
  have "promise_inv (w\<lparr>timers := [], commandQueue := rest, lastCommandTime := now,
                 inflight := [e],
                 port_writes := port_writes w @ [(now, Queued, command e)]\<rparr>)"
    using assms(2) s by (simp add: promise_inv_def)
  with r show ?thesis by blast
qed

lemma writeDone_shape:
  assumes "flow_inv w" "handle (WriteDone i err) now w = Some r"
  shows "\<exists>e. i = 0 \<and> inflight w = [e] \<and> timers w = [] \<and> isProcessingQueue w
     \<and> r = Inr (processQueue now (completed e err w))"
proof -
  from assms(2) have i: "i < length (inflight w)"
    by (auto split: if_splits)
  from i flow_length1 [OF assms(1)]
  have "length (inflight w) = 1 \<and> length (timers w) = 0 \<and> i = 0"
    by linarith
  then have l: "length (inflight w) = 1" "timers w = []" "i = 0"
    by auto
  then obtain e where e: "inflight w = [e]" by (cases "inflight w") auto
  from assms(1) e have busy: "isProcessingQueue w"
    by (auto simp: flow_inv_def split: if_splits)
  have "r = Inr (processQueue now (completed e err w))"
    using assms(2) i e l
    by (simp add: write_callback_def drop_nth_def completed_def split: option.splits)
  with e l busy show ?thesis by blast
qed

lemma completed_flow:
  assumes "flow_inv w" "inflight w = [e]"
  shows "flow_inv (completed e err w)"
proof -
  from assms flow_length1 [OF assms(1)] have "timers w = []" by simp
  with assms show ?thesis
    by (simp add: flow_inv_def completed_def queue_writes_def)
qed

lemma completed_promise:
  assumes "promise_inv w" "inflight w = [e]"
  shows "promise_inv (completed e err w)"
proof -
  from assms have "promise e \<notin> promise ` set (commandQueue w)"
    by (simp add: promise_inv_def)
  then have ne: "\<forall>e'\<in>set (commandQueue w). promise e' \<noteq> promise e"
    by (metis imageI)
  from assms have lt: "promise e < next_promise w"
    by (simp add: promise_inv_def)
  from assms ne lt show ?thesis
    by (simp add: promise_inv_def completed_def settle_def)
qed

lemma writeDone_flow:
  assumes "flow_inv w" "handle (WriteDone i err) now w = Some r"
  shows "\<exists>w'. r = Inr w' \<and> flow_inv w'"
proof -
  from writeDone_shape [OF assms] obtain e where
    e: "inflight w = [e]" and r: "r = Inr (processQueue now (completed e err w))"
    by blast
  from completed_flow [OF assms(1) e] have "flow_inv (processQueue now (completed e err w))"
    by (rule processQueue_flow)
  with r show ?thesis by blast
qed

lemma writeDone_promise:
  assumes "flow_inv w" "promise_inv w" "handle (WriteDone i err) now w = Some r"
  shows "\<exists>w'. r = Inr w' \<and> promise_inv w'"
proof -
  from writeDone_shape [OF assms(1,3)] obtain e where
    e: "inflight w = [e]" and r: "r = Inr (processQueue now (completed e err w))"
    by blast
  from completed_promise [OF assms(2) e] have "promise_inv (processQueue now (completed e err w))"
    by (rule processQueue_promise)
  with r show ?thesis by blast
qed

lemma broadcast_returns: "\<exists>ds. broadcast line cs = Inr ds"
  by (induction cs) (auto simp: ws_send_def)

lemma frame_inv:
  assumes "both_inv w"
    and "commandQueue w' = commandQueue w" "isProcessingQueue w' = isProcessingQueue w"
    and "lastCommandTime w' = lastCommandTime w" "timers w' = timers w"
    and "inflight w' = inflight w" "clock w' = clock w"
    and "queue_writes w' = queue_writes w"
    and "promises w' = promises w" "next_promise w' = next_promise w"
  shows "both_inv w'"
  using assms by (simp add: both_inv_def flow_inv_def promise_inv_def)

lemma handle_inv:
  assumes "both_inv w" "clock w = now" "handle ev now w = Some r"
  shows "\<exists>w'. r = Inr w' \<and> both_inv w'"
proof (cases ev)
  case (QueueCommand cmd)
  with assms show ?thesis by (auto simp: both_inv_def queueCommand_flow queueCommand_promise)
next
  case (Timeout i)
  with assms timeout_flow [of w now i r] timeout_promise [of w i now r]
  show ?thesis by (auto simp: both_inv_def simp del: handle.simps)
next
  case (WriteDone i err)
  with assms writeDone_flow [of w i err now r] writeDone_promise [of w i err now r]
  show ?thesis by (auto simp: both_inv_def simp del: handle.simps)
next
  case (CheckRFIDStatus ch)
  with assms(3) have r: "r = Inr (snd (checkRFIDStatus ch now w))" by auto
  have "both_inv (snd (checkRFIDStatus ch now w))"
    by (rule frame_inv [OF assms(1)])
      (simp_all add: checkRFIDStatus_def sendCommand_def Let_def queue_writes_def queued_of_append)
  with r show ?thesis by blast
next
  case (SendWriteDone i err)
  define w1 where "w1 = w\<lparr>direct_inflight := drop_nth i (direct_inflight w)\<rparr>"
  from SendWriteDone assms(3)
  have r: "r = Inr (send_write_callback (direct_inflight w ! i) err w1)"
    by (auto simp: w1_def split: if_splits)
  have "both_inv (send_write_callback (direct_inflight w ! i) err w1)"
    by (rule frame_inv [OF assms(1)])
      (simp_all add: w1_def send_write_callback_def queue_writes_def split: option.splits)
  with r show ?thesis by blast
next
  case (Data line)
  from broadcast_returns obtain ds where ds: "broadcast line (connectedClients w) = Inr ds"
    by blast
  define w1 where "w1 = w\<lparr>delivered := delivered w @ ds,
                 send_promises := fold (\<lambda>p. settle p (Resolved line)) (listeners w)
                                    (send_promises w),
                 listeners := []\<rparr>"
  from Data assms(3) ds have r: "r = Inr w1"
    by (auto simp: on_data_def w1_def)
  have "both_inv w1"
    by (rule frame_inv [OF assms(1)]) (simp_all add: w1_def queue_writes_def)
  with r show ?thesis by blast
next
  case WsConnection
  with assms(3) have r: "r = Inr (on_connection w)" by auto
  have "both_inv (on_connection w)"
    by (rule frame_inv [OF assms(1)]) (simp_all add: on_connection_def queue_writes_def)
  with r show ?thesis by blast
next
  case (WsReadyState cid n)
  with assms(3) have r: "r = Inr (set_readyState cid n w)" by auto
  have "both_inv (set_readyState cid n w)"
    by (rule frame_inv [OF assms(1)]) (simp_all add: set_readyState_def queue_writes_def)
  with r show ?thesis by blast
next
  case (WsClose cid)
  with assms(3) have r: "r = Inr (on_close cid w)" by auto
  have "both_inv (on_close cid w)"
    by (rule frame_inv [OF assms(1)]) (simp_all add: on_close_def queue_writes_def)
  with r show ?thesis by blast
qed

lemma step_inv:
  assumes "both_inv w" "step tev w = Some r"
  shows "\<exists>w'. r = Inr w' \<and> both_inv w'"
proof -
  from assms(2) have t: "clock w \<le> fst tev"
    and h: "handle (snd tev) (fst tev) (w\<lparr>clock := fst tev\<rparr>) = Some r"
    by (auto simp: step_def split: if_splits)
  have "both_inv (w\<lparr>clock := fst tev\<rparr>)"
    using assms(1) t by (simp add: both_inv_def flow_clock promise_clock)
  from handle_inv [OF this _ h] show ?thesis by simp
qed

lemma exec_inv:
  "both_inv w \<Longrightarrow> exec evs w = Some r \<Longrightarrow> \<exists>w'. r = Inr w' \<and> both_inv w'"
proof (induction evs arbitrary: w)
  case Nil
  then show ?case by auto
next
  case (Cons tev evs)
  from Cons.prems(2) obtain r1 where s: "step tev w = Some r1"
    by (auto split: option.splits)
  from step_inv [OF Cons.prems(1) s] obtain w1 where w1: "r1 = Inr w1" "both_inv w1" by blast
  with Cons.prems(2) s have "exec evs w1 = Some r" by simp
  from Cons.IH [OF w1(2) this] show ?case .
qed

lemma reachable_inv: "exec evs init = Some (Inr w) \<Longrightarrow> flow_inv w \<and> promise_inv w"
  using exec_inv [of init evs "Inr w"] by (simp add: both_inv_def init_flow init_promise)

lemma reachable_never_raises: "exec evs init \<noteq> Some (Inl e)"
  using exec_inv [of init evs "Inl e"] by (auto simp: both_inv_def init_flow init_promise)

lemma processQueue_frame:
  "commandQueue (processQueue now w) = commandQueue w"
  "port_writes (processQueue now w) = port_writes w"
  "lastCommandTime (processQueue now w) = lastCommandTime w"
  "inflight (processQueue now w) = inflight w"
  "promises (processQueue now w) = promises w"
  "clock (processQueue now w) = clock w"
  by (simp_all add: processQueue_def Let_def)

lemma enqueued_Cons: "enqueued (tev # rest) = enqueued [tev] @ enqueued rest"
  by (cases tev; cases "snd tev") auto

lemma handle_fifo:
  assumes "handle ev now w = Some (Inr w')"
  shows "map snd (queue_writes w') @ map command (commandQueue w') =
         map snd (queue_writes w) @ map command (commandQueue w) @ enqueued [(t, ev)]"
proof (cases ev)
  case (QueueCommand cmd)
  with assms show ?thesis
    by (auto simp: queueCommand_def Let_def processQueue_frame queue_writes_def)
next
  case (Timeout i)
  with assms show ?thesis
    by (auto simp: timer_callback_def queue_writes_def queued_of_append
        split: if_splits list.splits)
next
  case (WriteDone i err)
  with assms show ?thesis
    by (auto simp: write_callback_def processQueue_frame queue_writes_def
        split: if_splits option.splits)
next
  case (CheckRFIDStatus ch)
  with assms show ?thesis
    by (auto simp: checkRFIDStatus_def sendCommand_def Let_def queue_writes_def queued_of_append)
next
  case (SendWriteDone i err)
  with assms show ?thesis
    by (auto simp: send_write_callback_def queue_writes_def split: if_splits option.splits)
next
  case (Data line)
  with assms show ?thesis
    by (auto simp: on_data_def queue_writes_def split: sum.splits)
next
  case WsConnection
  with assms show ?thesis by (auto simp: on_connection_def queue_writes_def)
next
  case (WsReadyState cid n)
  with assms show ?thesis by (auto simp: set_readyState_def queue_writes_def)
next
  case (WsClose cid)
  with assms show ?thesis by (auto simp: on_close_def queue_writes_def)
qed

lemma step_fifo:
  assumes "step tev w = Some (Inr w')"
  shows "map snd (queue_writes w') @ map command (commandQueue w') =
         map snd (queue_writes w) @ map command (commandQueue w) @ enqueued [tev]"
proof -
  from assms have h: "handle (snd tev) (fst tev) (w\<lparr>clock := fst tev\<rparr>) = Some (Inr w')"
    by (auto simp: step_def split: if_splits)
  from handle_fifo [OF h, of "fst tev"] show ?thesis
    by (simp add: queue_writes_def)
qed

lemma exec_fifo:
  "exec evs w = Some (Inr w') \<Longrightarrow>
   map snd (queue_writes w') @ map command (commandQueue w') =
   map snd (queue_writes w) @ map command (commandQueue w) @ enqueued evs"
proof (induction evs arbitrary: w)
  case Nil
  then show ?case by simp
next
  case (Cons tev evs)
  from Cons.prems obtain w1 where s: "step tev w = Some (Inr w1)" and e: "exec evs w1 = Some (Inr w')"
    by (auto split: option.splits sum.splits)
  from Cons.IH [OF e] step_fifo [OF s] show ?case
    by (simp add: enqueued_Cons [of tev evs])
qed

lemmas run_defs = final_def step_def init_def queueCommand_def processQueue_def timer_callback_def
  write_callback_def drop_nth_def settle_def queue_writes_def RATE_LIMIT_MS_def

lemma completed_facts:
  assumes "promise_inv w" "inflight w = [e]"
  shows "promises (completed e err w) = (promises w)(promise e := Some (write_outcome e err))"
proof -
  from assms have "promises w (promise e) = None" by (simp add: promise_inv_def)
  then show ?thesis by (cases err) (simp_all add: completed_def settle_def)
qed

lemma writeDone_step:
  assumes "both_inv w" "inflight w = [e]" "clock w \<le> T"
  shows "\<exists>w2. step (T, WriteDone 0 err) w = Some (Inr w2) \<and> both_inv w2
     \<and> commandQueue w2 = commandQueue w
     \<and> queue_writes w2 = queue_writes w
     \<and> promises w2 = (promises w)(promise e := Some (write_outcome e err))
     \<and> clock w2 = T \<and> inflight w2 = []
     \<and> lastCommandTime w2 = lastCommandTime w
     \<and> isProcessingQueue w2 = (commandQueue w \<noteq> [])
     \<and> timers w2 = (if commandQueue w = [] then []
                     else [T + max 0 (RATE_LIMIT_MS - (T - lastCommandTime w))])"
proof -
  let ?w = "w\<lparr>clock := T\<rparr>"
  have inv: "both_inv ?w"
    using assms(1,3) by (simp add: both_inv_def flow_clock promise_clock)
  have en: "step (T, WriteDone 0 err) w = handle (WriteDone 0 err) T ?w"
    using assms(3) by (simp add: step_def)
  have "handle (WriteDone 0 err) T ?w \<noteq> None" using assms(2) by simp
  then obtain r where r: "handle (WriteDone 0 err) T ?w = Some r" by blast
  from inv have fl: "flow_inv ?w" and pr: "promise_inv ?w" by (simp_all add: both_inv_def)
  from writeDone_shape [OF fl r] assms(2)
  have req: "r = Inr (processQueue T (completed e err ?w))" and tm: "timers w = []"
    by auto
  from handle_inv [OF inv _ r] req have inv2: "both_inv (processQueue T (completed e err ?w))"
    by auto
  have pe: "promises (completed e err ?w) = (promises w)(promise e := Some (write_outcome e err))"
    using completed_facts [OF pr, of e err] assms(2) by simp
  have rest: "commandQueue (processQueue T (completed e err ?w)) = commandQueue w"
    "queue_writes (processQueue T (completed e err ?w)) = queue_writes w"
    "clock (processQueue T (completed e err ?w)) = T"
    "inflight (processQueue T (completed e err ?w)) = []"
    "lastCommandTime (processQueue T (completed e err ?w)) = lastCommandTime w"
    by (simp_all add: processQueue_frame completed_def queue_writes_def)
  have flag: "isProcessingQueue (processQueue T (completed e err ?w)) = (commandQueue w \<noteq> [])"
    by (simp add: processQueue_def completed_def Let_def)
  have tms: "timers (processQueue T (completed e err ?w)) =
      (if commandQueue w = [] then [] else [T + max 0 (RATE_LIMIT_MS - (T - lastCommandTime w))])"
    using tm by (simp add: processQueue_def completed_def Let_def)
  from en r req inv2 pe rest flag tms show ?thesis
    by (simp add: processQueue_frame)
qed

lemma timeout_step:
  assumes "both_inv w" "timers w = [d]" "d \<le> T" "clock w \<le> T"
  shows "\<exists>e rest w1. commandQueue w = e # rest
     \<and> step (T, Timeout 0) w = Some (Inr w1) \<and> both_inv w1
     \<and> commandQueue w1 = rest \<and> inflight w1 = [e]
     \<and> queue_writes w1 = queue_writes w @ [(T, command e)]
     \<and> promises w1 = promises w \<and> clock w1 = T \<and> lastCommandTime w1 = T"
proof -
  let ?w = "w\<lparr>clock := T\<rparr>"
  have inv: "both_inv ?w"
    using assms(1,4) by (simp add: both_inv_def flow_clock promise_clock)
  have en: "step (T, Timeout 0) w = handle (Timeout 0) T ?w"
    using assms(4) by (simp add: step_def)
  have "handle (Timeout 0) T ?w \<noteq> None" using assms(2,3) by simp
  then obtain r where r: "handle (Timeout 0) T ?w = Some r" by blast
  from inv have fl: "flow_inv ?w" by (simp add: both_inv_def)
  from timeout_shape [OF fl r] obtain e rest where
    q: "commandQueue w = e # rest"
    and req: "r = Inr (?w\<lparr>timers := [], commandQueue := rest, lastCommandTime := T,
                 inflight := [e],
                 port_writes := port_writes ?w @ [(T, Queued, command e)]\<rparr>)"
    by auto
  from handle_inv [OF inv _ r] req
  have inv1: "both_inv (?w\<lparr>timers := [], commandQueue := rest, lastCommandTime := T,
                 inflight := [e],
                 port_writes := port_writes ?w @ [(T, Queued, command e)]\<rparr>)"
    by auto
  from q en r req inv1 show ?thesis
    by (simp add: queue_writes_def queued_of_append)
qed

lemma serve_one:
  assumes "both_inv w" "timers w = [d]" "d \<le> T" "clock w \<le> T"
  shows "\<exists>e rest w2. commandQueue w = e # rest
     \<and> exec [(T, Timeout 0), (T, WriteDone 0 err)] w = Some (Inr w2) \<and> both_inv w2
     \<and> commandQueue w2 = rest
     \<and> queue_writes w2 = queue_writes w @ [(T, command e)]
     \<and> promises w2 = (promises w)(promise e := Some (write_outcome e err))
     \<and> clock w2 = T
     \<and> isProcessingQueue w2 = (rest \<noteq> [])
     \<and> timers w2 = (if rest = [] then [] else [T + 300])"
proof -
  from timeout_step [OF assms] obtain e rest w1 where
    q: "commandQueue w = e # rest"
    and s1: "step (T, Timeout 0) w = Some (Inr w1)" and inv1: "both_inv w1"
    and f1: "commandQueue w1 = rest" "inflight w1 = [e]"
      "queue_writes w1 = queue_writes w @ [(T, command e)]"
      "promises w1 = promises w" "clock w1 = T" "lastCommandTime w1 = T"
    by blast
  from f1 have c1: "clock w1 \<le> T" by simp
  from writeDone_step [OF inv1 f1(2) c1, of err] obtain w2 where
    s2: "step (T, WriteDone 0 err) w1 = Some (Inr w2)" and inv2: "both_inv w2"
    and f2: "commandQueue w2 = commandQueue w1" "queue_writes w2 = queue_writes w1"
      "promises w2 = (promises w1)(promise e := Some (write_outcome e err))"
      "clock w2 = T" "isProcessingQueue w2 = (commandQueue w1 \<noteq> [])"
      "timers w2 = (if commandQueue w1 = [] then []
                     else [T + max 0 (RATE_LIMIT_MS - (T - lastCommandTime w1))])"
    by blast
  have "exec [(T, Timeout 0), (T, WriteDone 0 err)] w = Some (Inr w2)"
    using s1 s2 by simp
  with q inv2 f1 f2 show ?thesis
    by (simp add: RATE_LIMIT_MS_def)
qed

lemma drain_serves:
  assumes "both_inv w" "timers w = [d]" "d \<le> t + 300" "clock w \<le> t + 300"
    and "length rs = length (commandQueue w)"
  shows "\<exists>w'. exec (drain t rs) w = Some (Inr w') \<and> commandQueue w' = []
     \<and> \<not> isProcessingQueue w'
     \<and> map snd (queue_writes w') = map snd (queue_writes w) @ map command (commandQueue w)
     \<and> (\<forall>e\<in>set (commandQueue w). promises w' (promise e) \<noteq> None)
     \<and> (\<forall>p. promises w p \<noteq> None \<longrightarrow> promises w' p = promises w p)"
  using assms
proof (induction rs arbitrary: w t d)
  case Nil
  then have "flow_inv w" by (simp add: both_inv_def)
  with Nil show ?case by (simp add: flow_inv_def)
next
  case (Cons r rs)
  from serve_one [OF Cons.prems(1-4), of r] obtain e rest w2 where
    q: "commandQueue w = e # rest"
    and ex: "exec [(t + 300, Timeout 0), (t + 300, WriteDone 0 r)] w = Some (Inr w2)"
    and inv2: "both_inv w2"
    and f: "commandQueue w2 = rest" "queue_writes w2 = queue_writes w @ [(t + 300, command e)]"
      "promises w2 = (promises w)(promise e := Some (write_outcome e r))"
      "clock w2 = t + 300" "isProcessingQueue w2 = (rest \<noteq> [])"
      "timers w2 = (if rest = [] then [] else [t + 300 + 300])"
    by blast
  from Cons.prems(1) have pinv: "promise_inv w" by (simp add: both_inv_def)
  with q have unset: "promises w (promise e) = None" by (simp add: promise_inv_def)
  have cont: "exec (drain t (r # rs)) w = exec (drain (t + 300) rs) w2"
    using ex by (auto split: option.splits sum.splits)
  show ?case
  proof (cases "rest = []")
    case True
    with Cons.prems(5) q have "rs = []" by simp
    with cont True q f unset show ?thesis by simp
  next
    case False
    with f have tm: "timers w2 = [t + 300 + 300]" by simp
    from Cons.prems(5) q f have len: "length rs = length (commandQueue w2)" by simp
    have d2: "t + 300 + 300 \<le> t + 300 + 300" by simp
    from f have c2: "clock w2 \<le> t + 300 + 300" by simp
    from Cons.IH [OF inv2 tm d2 c2 len]
    obtain w' where w': "exec (drain (t + 300) rs) w2 = Some (Inr w')" "commandQueue w' = []"
      "\<not> isProcessingQueue w'"
      "map snd (queue_writes w') = map snd (queue_writes w2) @ map command (commandQueue w2)"
      "\<forall>e\<in>set (commandQueue w2). promises w' (promise e) \<noteq> None"
      "\<forall>p. promises w2 p \<noteq> None \<longrightarrow> promises w' p = promises w2 p"
      by blast
    from w'(6) f(3) have keep: "promises w' (promise e) = Some (write_outcome e r)"
      by simp
    from w'(6) f(3) unset have old: "\<forall>p. promises w p \<noteq> None \<longrightarrow> promises w' p = promises w p"
      by (metis fun_upd_apply) 
    from cont w' q f keep old show ?thesis by auto
  qed
qed

lemma exec_append:
  "exec xs w = Some (Inr w1) \<Longrightarrow> exec (xs @ ys) w = exec ys w1"
proof (induction xs arbitrary: w)
  case Nil
  then show ?case by simp
next
  case (Cons x xs)
  from Cons.prems obtain w0 where s: "step x w = Some (Inr w0)" and e: "exec xs w0 = Some (Inr w1)"
    by (auto split: option.splits sum.splits)
  from Cons.IH [OF e] s show ?case by simp
qed

lemma busy_enqueue:
  assumes "isProcessingQueue w0" "clock w0 \<le> t"
  shows "\<exists>w. exec (map (\<lambda>c. (t, QueueCommand c)) cs) w0 = Some (Inr w)
     \<and> isProcessingQueue w \<and> timers w = timers w0 \<and> port_writes w = port_writes w0
     \<and> clock w \<le> t"
  using assms
proof (induction cs arbitrary: w0)
  case Nil
  then show ?case by simp
next
  case (Cons c cs)
  define w1 where "w1 = snd (queueCommand c t (w0\<lparr>clock := t\<rparr>))"
  have s: "step (t, QueueCommand c) w0 = Some (Inr w1)"
    using Cons.prems(2) by (simp add: step_def w1_def)
  have f: "isProcessingQueue w1" "timers w1 = timers w0" "port_writes w1 = port_writes w0"
    "clock w1 \<le> t"
    using Cons.prems(1) by (simp_all add: w1_def queueCommand_def processQueue_def Let_def)
  from Cons.IH [OF f(1) f(4)] obtain w where
    "exec (map (\<lambda>c. (t, QueueCommand c)) cs) w1 = Some (Inr w)"
    "isProcessingQueue w" "timers w = timers w1" "port_writes w = port_writes w1" "clock w \<le> t"
    by blast
  with f s show ?case by simp
qed

lemma enqueue_from_init:
  assumes "0 \<le> t" "cs \<noteq> []"
  shows "\<exists>w. exec (map (\<lambda>c. (t, QueueCommand c)) cs) init = Some (Inr w)
     \<and> timers w = [t + max 0 (300 - t)] \<and> port_writes w = [] \<and> clock w \<le> t"
proof -
  from assms(2) obtain c rest where cs: "cs = c # rest" by (cases cs) auto
  define w1 where "w1 = snd (queueCommand c t (init\<lparr>clock := t\<rparr>))"
  have s: "step (t, QueueCommand c) init = Some (Inr w1)"
    using assms(1) by (simp add: step_def w1_def init_def)
  have f: "isProcessingQueue w1" "timers w1 = [t + max 0 (300 - t)]" "port_writes w1 = []"
    "clock w1 \<le> t"
    by (simp_all add: w1_def queueCommand_def processQueue_def Let_def init_def RATE_LIMIT_MS_def)
  from busy_enqueue [OF f(1) f(4), of rest] obtain w where
    "exec (map (\<lambda>c. (t, QueueCommand c)) rest) w1 = Some (Inr w)"
    "timers w = timers w1" "port_writes w = port_writes w1" "clock w \<le> t"
    by blast
  with f s cs show ?thesis by simp
qed

lemma enqueued_map: "enqueued (map (\<lambda>c. (t, QueueCommand c)) cs) = cs"
  by (induction cs) auto

lemma enqueue_then_drain:
  assumes "0 \<le> t" "length rs = length cs"
  shows "\<exists>w'. exec (map (\<lambda>c. (t, QueueCommand c)) cs @ drain t rs) init = Some (Inr w')
     \<and> map snd (queue_writes w') = cs \<and> commandQueue w' = [] \<and> \<not> isProcessingQueue w'"
proof (cases "cs = []")
  case True
  with assms(2) show ?thesis by (simp add: init_def queue_writes_def)
next
  case False
  from enqueue_from_init [OF assms(1) False] obtain w where
    run: "exec (map (\<lambda>c. (t, QueueCommand c)) cs) init = Some (Inr w)"
    and tm: "timers w = [t + max 0 (300 - t)]" and pw: "port_writes w = []"
    and ck: "clock w \<le> t"
    by blast
  from exec_inv [OF _ run] have inv: "both_inv w"
    by (simp add: both_inv_def init_flow init_promise)
  from exec_fifo [OF run] pw have q: "map command (commandQueue w) = cs"
    by (simp add: queue_writes_def init_def enqueued_map)
  then have "length (commandQueue w) = length cs" by (metis length_map)
  with assms(2) have len: "length rs = length (commandQueue w)" by simp
  from assms(1) have d: "t + max 0 (300 - t) \<le> t + 300" by simp
  from ck have c: "clock w \<le> t + 300" by simp
  from drain_serves [OF inv tm d c len] obtain w' where
    "exec (drain t rs) w = Some (Inr w')" "commandQueue w' = []" "\<not> isProcessingQueue w'"
    "map snd (queue_writes w') = map snd (queue_writes w) @ map command (commandQueue w)"
    by blast
  with exec_append [OF run, of "drain t rs"] q pw show ?thesis
    by (simp add: queue_writes_def)
qed

lemma flag_cleared_only_by_completion:
  assumes "handle ev now w = Some (Inr w')" "isProcessingQueue w" "\<not> isProcessingQueue w'"
  shows "\<exists>i err. ev = WriteDone i err"
proof (cases ev)
  case (QueueCommand cmd)
  with assms show ?thesis by (auto simp: queueCommand_def processQueue_def Let_def)
next
  case (Timeout i)
  with assms show ?thesis by (auto simp: timer_callback_def split: if_splits list.splits)
next
  case (WriteDone i err)
  then show ?thesis by blast
next
  case (CheckRFIDStatus ch)
  with assms show ?thesis by (auto simp: checkRFIDStatus_def sendCommand_def Let_def)
next
  case (SendWriteDone i err)
  with assms show ?thesis by (auto simp: send_write_callback_def split: if_splits option.splits)
next
  case (Data line)
  with assms show ?thesis by (auto simp: on_data_def split: sum.splits)
next
  case WsConnection
  with assms show ?thesis by (auto simp: on_connection_def)
next
  case (WsReadyState cid n)
  with assms show ?thesis by (auto simp: set_readyState_def)
next
  case (WsClose cid)
  with assms show ?thesis by (auto simp: on_close_def)
qed

lemma getStickers_returns: "\<exists>tags. getStickers s = Inr tags"
proof (cases "CHR ''['' \<in> set s")
  case True
  then show ?thesis by (simp add: getStickers_unfold)
next
  case False
  then show ?thesis by (simp add: getStickers_no_bracket)
qed

lemma js_trim_CRLF: "js_trim (c @ CRLF) = js_trim c"
proof (cases "\<forall>x\<in>set c. js_space x")
  case True
  moreover have "\<forall>x\<in>set CRLF. js_space x" by (simp add: CRLF_def js_space_def)
  ultimately have "\<forall>x\<in>set (c @ CRLF). js_space x" by auto
  then have "dropWhile js_space (c @ CRLF) = []" by (simp only: dropWhile_eq_Nil_conv)
  moreover from True have "dropWhile js_space c = []" by simp
  ultimately show ?thesis by (simp only: js_trim_def)
next
  case False
  then obtain x where "x \<in> set c" "\<not> js_space x" by blast
  then have "dropWhile js_space (c @ CRLF) = dropWhile js_space c @ CRLF"
    by (rule dropWhile_append1)
  then show ?thesis by (simp add: js_trim_def CRLF_def js_space_def)
qed

lemma js_trim_formattedCommand: "js_trim (formattedCommand c) = js_trim c"
  by (simp add: formattedCommand_def js_trim_CRLF)

lemma formattedCommand_ends: "js_endsWith (formattedCommand c) CRLF"
  by (simp add: formattedCommand_def js_endsWith_def CRLF_def)

lemma broadcast_eq:
  "broadcast data cs = Inr (map (\<lambda>c. (client_id c, data)) (filter (\<lambda>c. readyState c = 1) cs))"
  by (induction cs) (simp_all add: ws_send_def)

section \<open>Properties of the dispatcher\<close>

text \<open>
  C1. No run from the initial state ends in a raised error, and in every state
  reached the payloads written by the dispatcher so far, followed by the commands still queued, are the commands passed
  to \<^verbatim>\<open>queueCommand\<close> in call order (writes are issued first in, first out); any
  two successive writes of the dispatcher are issued at least 300 ms apart; and
  \<open>lastCommandTime\<close> is the issue time of the latest write, also after that write has
  completed. This holds whether or not writes fail. Moreover the writes are issued:
  when commands \<open>cs\<close> are enqueued at a time \<open>t\<close> and then, for each of them, the
  timer fires and the write completes, the run goes through and the port has been
  handed exactly \<open>cs\<close>, in order, leaving the queue empty. Time is the clock read
  by \<^verbatim>\<open>Date.now()\<close>, assumed not to run backwards, and a timer fires no earlier
  than asked.
\<close>

theorem dispatcher_fifo_and_spacing:
  assumes "exec evs init = Some r"
  shows "(\<exists>w. r = Inr w
         \<and> map snd (queue_writes w) @ map command (commandQueue w) = enqueued evs
         \<and> (\<forall>i. Suc i < length (queue_writes w) \<longrightarrow>
               fst (queue_writes w ! i) + 300 \<le> fst (queue_writes w ! Suc i))
         \<and> (queue_writes w \<noteq> [] \<longrightarrow> lastCommandTime w = fst (last (queue_writes w))))
       \<and> (0 \<le> t \<longrightarrow>
            (\<exists>w'. exec (map (\<lambda>c. (t, QueueCommand c)) cs
                           @ drain t (replicate (length cs) None)) init = Some (Inr w')
                \<and> map snd (queue_writes w') = cs \<and> commandQueue w' = []))"
proof -
  from exec_inv [OF _ assms] obtain w where r: "r = Inr w" and inv: "both_inv w"
    by (auto simp: both_inv_def init_flow init_promise)
  from assms r have run: "exec evs init = Some (Inr w)" by simp
  from exec_fifo [OF run]
  have fifo: "map snd (queue_writes w) @ map command (commandQueue w) = enqueued evs"
    by (simp add: init_def queue_writes_def)
  from inv have f: "flow_inv w" by (simp add: both_inv_def)
  then have sp: "spaced 300 (map fst (queue_writes w))"
    and la: "queue_writes w \<noteq> [] \<longrightarrow> lastCommandTime w = fst (last (queue_writes w))"
    by (auto simp: flow_inv_def RATE_LIMIT_MS_def)
  have gaps: "\<forall>i. Suc i < length (queue_writes w) \<longrightarrow>
             fst (queue_writes w ! i) + 300 \<le> fst (queue_writes w ! Suc i)"
  proof (intro allI impI)
    fix i assume i: "Suc i < length (queue_writes w)"
    then have "Suc i < length (map fst (queue_writes w))" by simp
    from spaced_nth [OF sp this] i
    show "fst (queue_writes w ! i) + 300 \<le> fst (queue_writes w ! Suc i)"
      by simp
  qed
  have live: "0 \<le> t \<longrightarrow>
            (\<exists>w'. exec (map (\<lambda>c. (t, QueueCommand c)) cs
                           @ drain t (replicate (length cs) None)) init = Some (Inr w')
                \<and> map snd (queue_writes w') = cs \<and> commandQueue w' = [])"
  proof
    assume t: "0 \<le> t"
    have "length (replicate (length cs) (None :: string option)) = length cs" by simp
    from enqueue_then_drain [OF t this] show "\<exists>w'. exec (map (\<lambda>c. (t, QueueCommand c)) cs
                           @ drain t (replicate (length cs) None)) init = Some (Inr w')
                \<and> map snd (queue_writes w') = cs \<and> commandQueue w' = []"
      by blast
  qed
  from r fifo gaps la live show ?thesis by blast
qed



theorem dispatcher_fifo_and_spacing_witness:
  "exec [(1000, QueueCommand ''A''), (1000, QueueCommand ''B''), (1000, Timeout 0),
         (1040, WriteDone 0 None), (1300, Timeout 0), (1320, WriteDone 0 None)] init
     = Some (Inr (final [(1000, QueueCommand ''A''), (1000, QueueCommand ''B''), (1000, Timeout 0),
         (1040, WriteDone 0 None), (1300, Timeout 0), (1320, WriteDone 0 None)]))
   \<and> queue_writes (final [(1000, QueueCommand ''A''), (1000, QueueCommand ''B''), (1000, Timeout 0),
         (1040, WriteDone 0 None), (1300, Timeout 0), (1320, WriteDone 0 None)])
     = [(1000, ''A''), (1300, ''B'')]
   \<and> lastCommandTime (final [(1000, QueueCommand ''A''), (1000, QueueCommand ''B''), (1000, Timeout 0),
         (1040, WriteDone 0 None), (1300, Timeout 0), (1320, WriteDone 0 None)]) = 1300
   \<and> (0::int) \<le> 1000
   \<and> map snd (queue_writes (final [(1000, QueueCommand ''A''), (1000, QueueCommand ''B''),
         (1300, Timeout 0), (1300, WriteDone 0 None), (1600, Timeout 0), (1600, WriteDone 0 None)]))
     = [''A'', ''B'']"
proof -
  let ?evs = "[(1000, QueueCommand ''A''), (1000, QueueCommand ''B''), (1000, Timeout 0),
         (1040, WriteDone 0 None), (1300, Timeout 0), (1320, WriteDone 0 None)]"
  let ?dr = "[(1000, QueueCommand ''A''), (1000, QueueCommand ''B''),
         (1300, Timeout 0), (1300, WriteDone 0 None), (1600, Timeout 0), (1600, WriteDone 0 None)]"
  have run: "exec ?evs init = Some (Inr (final ?evs))"
    by (simp add: run_defs)
  have w: "queue_writes (final ?evs) = [(1000, ''A''), (1300, ''B'')]"
    by (simp add: run_defs)
  have t: "(0::int) \<le> 1000" by simp
  have dr: "map (\<lambda>c. (1000, QueueCommand c)) [''A'', ''B'']
              @ drain 1000 (replicate (length [''A'', ''B'']) None) = ?dr"
    by simp
  note th = dispatcher_fifo_and_spacing [OF run, of 1000 "[''A'', ''B'']"]
  from th [THEN conjunct1] obtain w0 where w0: "Inr (final ?evs) = (Inr w0 :: js_error + world)"
    and l0: "queue_writes w0 \<noteq> [] \<longrightarrow> lastCommandTime w0 = fst (last (queue_writes w0))"
    by blast
  from w0 have "w0 = final ?evs" by simp
  with l0 w have a: "lastCommandTime (final ?evs) = 1300" by simp
  have "\<exists>w'. exec ?dr init = Some (Inr w')
          \<and> map snd (queue_writes w') = [''A'', ''B''] \<and> commandQueue w' = []"
    using th [THEN conjunct2, THEN mp, OF t] unfolding dr .
  then obtain w' where w': "exec ?dr init = Some (Inr w')
          \<and> map snd (queue_writes w') = [''A'', ''B''] \<and> commandQueue w' = []" ..
  from w' [THEN conjunct1] have "final ?dr = w'"
    by (simp only: final_def option.case sum.case)
  with w' [THEN conjunct2, THEN conjunct1]
  have b: "map snd (queue_writes (final ?dr)) = [''A'', ''B'']" by (simp only:)
  from run w a t b show ?thesis by (intro conjI)
qed

text \<open>
  C2. Whatever the order of the events (calls of \<^verbatim>\<open>queueCommand\<close>, timers,
  completions, status checks, device lines), in every reachable state at most one
  write of the dispatcher is outstanding;
  \<^verbatim>\<open>processQueue\<close> changes nothing while the flag is set; the timer callback, the
  only place that issues a write, runs only when no write is outstanding; and the only
  event that takes the flag from set to clear is the completion of a write.
\<close>

theorem single_write_in_flight:
  assumes "exec evs init = Some r"
  shows "\<exists>w. r = Inr w
       \<and> length (inflight w) \<le> 1
       \<and> (isProcessingQueue w \<longrightarrow> processQueue now w = w)
       \<and> (\<forall>t i r'. step (t, Timeout i) w = Some r' \<longrightarrow> inflight w = [])
       \<and> (\<forall>t ev w'. step (t, ev) w = Some (Inr w') \<and> isProcessingQueue w
              \<and> \<not> isProcessingQueue w' \<longrightarrow> (\<exists>i err. ev = WriteDone i err))"
proof -
  from exec_inv [OF _ assms] obtain w where r: "r = Inr w" and inv: "both_inv w"
    by (auto simp: both_inv_def init_flow init_promise)
  from inv have f: "flow_inv w" by (simp add: both_inv_def)
  from flow_length1 [OF f] have one: "length (inflight w) \<le> 1" by simp
  have ret: "isProcessingQueue w \<longrightarrow> processQueue now w = w"
    by (simp add: processQueue_def)
  have issue: "\<forall>t i r'. step (t, Timeout i) w = Some r' \<longrightarrow> inflight w = []"
  proof (intro allI impI)
    fix t i r' assume s: "step (t, Timeout i) w = Some r'"
    then have c: "clock w \<le> t" and h: "handle (Timeout i) t (w\<lparr>clock := t\<rparr>) = Some r'"
      by (auto simp: step_def split: if_splits)
    from timeout_shape [OF flow_clock [OF f c] h] show "inflight w = []" by auto
  qed
  have clear: "\<forall>t ev w'. step (t, ev) w = Some (Inr w') \<and> isProcessingQueue w
              \<and> \<not> isProcessingQueue w' \<longrightarrow> (\<exists>i err. ev = WriteDone i err)"
  proof (intro allI impI)
    fix t ev w'
    assume a: "step (t, ev) w = Some (Inr w') \<and> isProcessingQueue w \<and> \<not> isProcessingQueue w'"
    then have h: "handle ev t (w\<lparr>clock := t\<rparr>) = Some (Inr w')"
      by (auto simp: step_def split: if_splits)
    from flag_cleared_only_by_completion [OF h] a show "\<exists>i err. ev = WriteDone i err"
      by simp
  qed
  from r one ret issue clear show ?thesis by blast
qed

theorem single_write_in_flight_witness:
  "exec [(1000, QueueCommand ''A''), (1000, QueueCommand ''B''), (1000, Timeout 0)] init
     = Some (Inr (final [(1000, QueueCommand ''A''), (1000, QueueCommand ''B''), (1000, Timeout 0)]))
   \<and> length (inflight (final [(1000, QueueCommand ''A''), (1000, QueueCommand ''B''), (1000, Timeout 0)])) = 1
   \<and> isProcessingQueue (final [(1000, QueueCommand ''A''), (1000, QueueCommand ''B''), (1000, Timeout 0)])
   \<and> processQueue 1001 (final [(1000, QueueCommand ''A''), (1000, QueueCommand ''B''), (1000, Timeout 0)])
       = final [(1000, QueueCommand ''A''), (1000, QueueCommand ''B''), (1000, Timeout 0)]
   \<and> step (1001, Timeout 0) (final [(1000, QueueCommand ''A''), (1000, QueueCommand ''B''), (1000, Timeout 0)]) = None"
proof -
  let ?evs = "[(1000, QueueCommand ''A''), (1000, QueueCommand ''B''), (1000, Timeout 0)]"
  have run: "exec ?evs init = Some (Inr (final ?evs))"
    by (simp add: run_defs)
  have busy: "isProcessingQueue (final ?evs)" and len: "length (inflight (final ?evs)) = 1"
    and no: "step (1001, Timeout 0) (final ?evs) = None"
    by (simp_all add: run_defs)
  from single_write_in_flight [OF run, of 1001] busy
  have "processQueue 1001 (final ?evs) = final ?evs" by blast
  with run busy len no show ?thesis by blast
qed

text \<open>
  C3. When the outstanding write of a reachable state fails with \<open>msg\<close>, the promise
  of its entry, pending until then, is rejected with the message prefixed by
  \<open>Error sending command: \<close> and no other promise changes; the queue is left as it
  was; the flag is set again exactly if entries are queued, since \<^verbatim>\<open>processQueue\<close>
  runs again; and the schedule \<open>drain\<close> then serves every queued entry: it runs to
  the end, writes the queued commands in order, settles each of their promises and
  leaves the queue empty and the flag clear, whatever the results \<open>rs\<close> of the later
  writes are.
\<close>

theorem write_failure_rejects_only_its_entry:
  assumes "exec evs init = Some (Inr w)" "i < length (inflight w)" "clock w \<le> t"
    and "length rs = length (commandQueue w)"
  shows "\<exists>w1 w2.
       step (t, WriteDone i (Some msg)) w = Some (Inr w1)
     \<and> promises w (promise (inflight w ! i)) = None
     \<and> promises w1 = (promises w)(promise (inflight w ! i) :=
                         Some (Rejected (''Error sending command: '' @ msg)))
     \<and> commandQueue w1 = commandQueue w
     \<and> inflight w1 = []
     \<and> isProcessingQueue w1 = (commandQueue w \<noteq> [])
     \<and> exec (drain t rs) w1 = Some (Inr w2)
     \<and> commandQueue w2 = [] \<and> \<not> isProcessingQueue w2
     \<and> map snd (queue_writes w2) = map snd (queue_writes w) @ map command (commandQueue w)
     \<and> (\<forall>e\<in>set (commandQueue w). promises w2 (promise e) \<noteq> None)"
proof -
  from reachable_inv [OF assms(1)] have inv: "both_inv w" by (simp add: both_inv_def)
  then have f: "flow_inv w" and p: "promise_inv w" by (simp_all add: both_inv_def)
  from assms(2) flow_length1 [OF f] have "length (inflight w) = 1 \<and> i = 0" by linarith
  then obtain e where e: "inflight w = [e]" and i0: "i = 0"
    by (cases "inflight w") auto
  from p e have unset: "promises w (promise e) = None" by (simp add: promise_inv_def)
  from f have last: "lastCommandTime w \<le> clock w" by (simp add: flow_inv_def)
  from writeDone_step [OF inv e assms(3), of "Some msg"] obtain w1 where
    s: "step (t, WriteDone 0 (Some msg)) w = Some (Inr w1)" and inv1: "both_inv w1"
    and f1: "commandQueue w1 = commandQueue w" "queue_writes w1 = queue_writes w"
      "promises w1 = (promises w)(promise e := Some (write_outcome e (Some msg)))"
      "clock w1 = t" "inflight w1 = []" "isProcessingQueue w1 = (commandQueue w \<noteq> [])"
      "timers w1 = (if commandQueue w = [] then []
                     else [t + max 0 (RATE_LIMIT_MS - (t - lastCommandTime w))])"
    by blast
  have "\<exists>w2. exec (drain t rs) w1 = Some (Inr w2) \<and> commandQueue w2 = []
     \<and> \<not> isProcessingQueue w2
     \<and> map snd (queue_writes w2) = map snd (queue_writes w1) @ map command (commandQueue w1)
     \<and> (\<forall>e\<in>set (commandQueue w1). promises w2 (promise e) \<noteq> None)"
  proof (cases "commandQueue w = []")
    case True
    with assms(4) have "rs = []" by simp
    with True f1 show ?thesis by simp
  next
    case False
    with f1 have tm: "timers w1 = [t + max 0 (RATE_LIMIT_MS - (t - lastCommandTime w))]"
      by simp
    from last assms(3) have d: "t + max 0 (RATE_LIMIT_MS - (t - lastCommandTime w)) \<le> t + 300"
      by (simp add: RATE_LIMIT_MS_def)
    from f1 have c: "clock w1 \<le> t + 300" by simp
    from assms(4) f1 have len: "length rs = length (commandQueue w1)" by simp
    from drain_serves [OF inv1 tm d c len] show ?thesis by blast
  qed
  then obtain w2 where w2: "exec (drain t rs) w1 = Some (Inr w2)" "commandQueue w2 = []"
     "\<not> isProcessingQueue w2"
     "map snd (queue_writes w2) = map snd (queue_writes w1) @ map command (commandQueue w1)"
     "\<forall>e\<in>set (commandQueue w1). promises w2 (promise e) \<noteq> None"
    by blast
  from s unset f1 w2 e i0 show ?thesis by simp
qed

theorem write_failure_rejects_only_its_entry_witness:
  "exec [(1000, QueueCommand ''A''), (1000, QueueCommand ''B''), (1000, Timeout 0)] init
     = Some (Inr (final [(1000, QueueCommand ''A''), (1000, QueueCommand ''B''), (1000, Timeout 0)]))
   \<and> map command (commandQueue (final [(1000, QueueCommand ''A''), (1000, QueueCommand ''B''), (1000, Timeout 0)])) = [''B'']
   \<and> map command (inflight (final [(1000, QueueCommand ''A''), (1000, QueueCommand ''B''), (1000, Timeout 0)])) = [''A'']
   \<and> (\<exists>w1 w2.
        step (1010, WriteDone 0 (Some ''port closed''))
          (final [(1000, QueueCommand ''A''), (1000, QueueCommand ''B''), (1000, Timeout 0)]) = Some (Inr w1)
      \<and> promises w1 0 = Some (Rejected ''Error sending command: port closed'')
      \<and> promises w1 1 = None
      \<and> exec (drain 1010 [None]) w1 = Some (Inr w2)
      \<and> map snd (queue_writes w2) = [''A'', ''B'']
      \<and> promises w2 1 \<noteq> None)"
proof -
  let ?evs = "[(1000, QueueCommand ''A''), (1000, QueueCommand ''B''), (1000, Timeout 0)]"
  have run: "exec ?evs init = Some (Inr (final ?evs))"
    by (simp add: run_defs)
  have q: "commandQueue (final ?evs) = [\<lparr>command = ''B'', promise = 1\<rparr>]"
    and fl: "inflight (final ?evs) = [\<lparr>command = ''A'', promise = 0\<rparr>]"
    and ws: "queue_writes (final ?evs) = [(1000, ''A'')]"
    and ck: "clock (final ?evs) = 1000"
    and pr: "promises (final ?evs) 1 = None"
    by (simp_all add: run_defs)
  have h2: "0 < length (inflight (final ?evs))" using fl by simp
  have h3: "clock (final ?evs) \<le> 1010" using ck by simp
  have h4: "length [None :: string option] = length (commandQueue (final ?evs))" using q by simp
  from write_failure_rejects_only_its_entry [OF run h2 h3 h4, of "''port closed''"]
  obtain w1 w2 where
    "step (1010, WriteDone 0 (Some ''port closed'')) (final ?evs) = Some (Inr w1)"
    "promises w1 = (promises (final ?evs))(promise (inflight (final ?evs) ! 0) :=
                         Some (Rejected (''Error sending command: '' @ ''port closed'')))"
    "exec (drain 1010 [None]) w1 = Some (Inr w2)"
    "map snd (queue_writes w2) = map snd (queue_writes (final ?evs)) @ map command (commandQueue (final ?evs))"
    "\<forall>e\<in>set (commandQueue (final ?evs)). promises w2 (promise e) \<noteq> None"
    by blast
  with q fl ws pr have
    "step (1010, WriteDone 0 (Some ''port closed'')) (final ?evs) = Some (Inr w1)
      \<and> promises w1 0 = Some (Rejected ''Error sending command: port closed'')
      \<and> promises w1 1 = None
      \<and> exec (drain 1010 [None]) w1 = Some (Inr w2)
      \<and> map snd (queue_writes w2) = [''A'', ''B'']
      \<and> promises w2 1 \<noteq> None"
    by simp
  with run q fl show ?thesis by auto
qed

text \<open>
  C7, as stated: the flag is set if and only if a write is outstanding. After a single
  \<^verbatim>\<open>queueCommand\<close> the flag is set while the timer is pending: no write has been
  issued yet.
\<close>

theorem busy_flag_counterexample:
  "exec [(1000, QueueCommand ''A'')] init = Some (Inr (final [(1000, QueueCommand ''A'')]))
   \<and> isProcessingQueue (final [(1000, QueueCommand ''A'')])
   \<and> inflight (final [(1000, QueueCommand ''A'')]) = []
   \<and> port_writes (final [(1000, QueueCommand ''A'')]) = []"
  by (simp add: run_defs)

text \<open>
  C7, amended: in every reachable state the flag is set if and only if the
  rate-limit timer is pending or a write of the dispatcher is outstanding, and at most
  one of the two is the case (so the flag is set whenever a write is outstanding).
\<close>

theorem busy_flag_iff_timer_or_write:
  assumes "exec evs init = Some r"
  shows "\<exists>w. r = Inr w
       \<and> (isProcessingQueue w \<longleftrightarrow> timers w \<noteq> [] \<or> inflight w \<noteq> [])
       \<and> length (timers w) + length (inflight w) \<le> 1"
proof -
  from exec_inv [OF _ assms] obtain w where r: "r = Inr w" and inv: "both_inv w"
    by (auto simp: both_inv_def init_flow init_promise)
  from inv have "length (timers w) + length (inflight w) = (if isProcessingQueue w then 1 else 0)"
    by (simp add: both_inv_def flow_inv_def)
  with r show ?thesis by (auto split: if_splits)
qed

theorem busy_flag_iff_timer_or_write_witness:
  "exec [(1000, QueueCommand ''A'')] init = Some (Inr (final [(1000, QueueCommand ''A'')]))
   \<and> isProcessingQueue (final [(1000, QueueCommand ''A'')])
   \<and> timers (final [(1000, QueueCommand ''A'')]) = [1000]"
proof -
  let ?evs = "[(1000, QueueCommand ''A'')]"
  have run: "exec ?evs init = Some (Inr (final ?evs))"
    by (simp add: run_defs)
  have tm: "timers (final ?evs) = [1000]"
    by (simp add: run_defs)
  from busy_flag_iff_timer_or_write [OF run] tm have "isProcessingQueue (final ?evs)" by simp
  with run tm show ?thesis by blast
qed

section \<open>Properties of the handlers and of the broadcast\<close>

text \<open>
  C6, as stated: a body whose \<open>command\<close> field is present is enqueued. The empty
  string is present and falsy: the handler answers 400 and enqueues nothing.
\<close>

theorem post_send_command_empty_counterexample:
  "post_send_command (JStr []) 1000 init
     = (Respond (Response 400 (JsonError ''Command is required'')), init)
   \<and> commandQueue (snd (post_send_command (JStr []) 1000 init)) = []"
  by (simp add: post_send_command_def init_def)

text \<open>
  C6, amended: if the \<open>command\<close> field is absent or falsy (the empty string
  included) the handler answers 400 with \<open>Command is required\<close> and the state is
  unchanged. For a non-empty string it awaits a new promise and appends one entry to
  the queue, whose command ends with the terminator, is the command itself when that
  already ends with it and the command followed by the terminator otherwise. When the
  write of that entry succeeds the answer is 200 with \<open>success\<close> true and the
  command trimmed; when it fails with \<open>msg\<close> the answer is 500 with
  \<open>Error sending command: msg\<close>. Posting \<open>PING\<close> to the initial state, then the
  timer, then a successful completion, writes \<open>PING\<close> and the terminator to the port
  and answers 200 with command \<open>PING\<close>.
\<close>

theorem post_send_command_contract:
  "post_send_command JUndefined t w
     = (Respond (Response 400 (JsonError ''Command is required'')), w)
   \<and> (\<not> truthy cmd \<longrightarrow>
        post_send_command cmd t w
          = (Respond (Response 400 (JsonError ''Command is required'')), w))
   \<and> (c \<noteq> [] \<longrightarrow>
        fst (post_send_command (JStr c) t w) = Await (next_promise w)
      \<and> commandQueue (snd (post_send_command (JStr c) t w))
          = commandQueue w @ [\<lparr>command = formattedCommand c, promise = next_promise w\<rparr>])
   \<and> js_endsWith (formattedCommand c) CRLF
   \<and> (js_endsWith c CRLF \<longrightarrow> formattedCommand c = c)
   \<and> (\<not> js_endsWith c CRLF \<longrightarrow> formattedCommand c = c @ CRLF)
   \<and> (promises w p = None \<longrightarrow>
        map_option post_send_command_reply
          (promises (write_callback \<lparr>command = formattedCommand c, promise = p\<rparr> None t w) p)
          = Some (Response 200 (JsonResult (SendResult True (js_trim c))))
      \<and> map_option post_send_command_reply
          (promises (write_callback \<lparr>command = formattedCommand c, promise = p\<rparr> (Some msg) t w) p)
          = Some (Response 500 (JsonError (''Error sending command: '' @ msg))))
   \<and> (0 \<le> t0 \<and> t0 + max 0 (300 - t0) \<le> t1 \<and> t1 \<le> t2 \<longrightarrow>
        fst (post_send_command (JStr ''PING'') t0 init) = Await 0
      \<and> map_option (map_sum id port_writes)
          (exec [(t1, Timeout 0), (t2, WriteDone 0 None)]
             (snd (post_send_command (JStr ''PING'') t0 init)))
          = Some (Inr [(t1, Queued, ''PING'' @ CRLF)])
      \<and> map_option (map_sum id (\<lambda>w. map_option post_send_command_reply (promises w 0)))
          (exec [(t1, Timeout 0), (t2, WriteDone 0 None)]
             (snd (post_send_command (JStr ''PING'') t0 init)))
          = Some (Inr (Some (Response 200 (JsonResult (SendResult True ''PING''))))))"
proof -
  have a: "post_send_command JUndefined t w
     = (Respond (Response 400 (JsonError ''Command is required'')), w)"
    by (simp add: post_send_command_def)
  have b: "\<not> truthy cmd \<longrightarrow>
        post_send_command cmd t w
          = (Respond (Response 400 (JsonError ''Command is required'')), w)"
    by (simp add: post_send_command_def)
  have c: "c \<noteq> [] \<longrightarrow>
        fst (post_send_command (JStr c) t w) = Await (next_promise w)
      \<and> commandQueue (snd (post_send_command (JStr c) t w))
          = commandQueue w @ [\<lparr>command = formattedCommand c, promise = next_promise w\<rparr>]"
    by (simp add: post_send_command_def queueCommand_def Let_def processQueue_frame)
  have d: "js_endsWith (formattedCommand c) CRLF" by (rule formattedCommand_ends)
  have e: "(js_endsWith c CRLF \<longrightarrow> formattedCommand c = c)
      \<and> (\<not> js_endsWith c CRLF \<longrightarrow> formattedCommand c = c @ CRLF)"
    by (simp add: formattedCommand_def)
  have f: "promises w p = None \<longrightarrow>
        map_option post_send_command_reply
          (promises (write_callback \<lparr>command = formattedCommand c, promise = p\<rparr> None t w) p)
          = Some (Response 200 (JsonResult (SendResult True (js_trim c))))
      \<and> map_option post_send_command_reply
          (promises (write_callback \<lparr>command = formattedCommand c, promise = p\<rparr> (Some msg) t w) p)
          = Some (Response 500 (JsonError (''Error sending command: '' @ msg)))"
    by (simp add: write_callback_def processQueue_frame settle_def js_trim_formattedCommand)
  have "js_trim ''PING'' = ''PING''"
    by (simp add: js_trim_def js_space_def)
  with js_trim_CRLF [of "''PING''"] have ping: "js_trim (''PING'' @ CRLF) = ''PING''"
    by (simp only:)
  have fp: "formattedCommand ''PING'' = ''PING'' @ CRLF"
    by (simp add: formattedCommand_def js_endsWith_def CRLF_def)
  have g: "0 \<le> t0 \<and> t0 + max 0 (300 - t0) \<le> t1 \<and> t1 \<le> t2 \<longrightarrow>
        fst (post_send_command (JStr ''PING'') t0 init) = Await 0
      \<and> map_option (map_sum id port_writes)
          (exec [(t1, Timeout 0), (t2, WriteDone 0 None)]
             (snd (post_send_command (JStr ''PING'') t0 init)))
          = Some (Inr [(t1, Queued, ''PING'' @ CRLF)])
      \<and> map_option (map_sum id (\<lambda>w. map_option post_send_command_reply (promises w 0)))
          (exec [(t1, Timeout 0), (t2, WriteDone 0 None)]
             (snd (post_send_command (JStr ''PING'') t0 init)))
          = Some (Inr (Some (Response 200 (JsonResult (SendResult True ''PING'')))))"
    using ping
    by (auto simp: post_send_command_def fp run_defs)
  from a b c d e f g show ?thesis by blast
qed

theorem post_send_command_contract_witness:
  "\<not> truthy JNull
   \<and> post_send_command JNull 1000 init
       = (Respond (Response 400 (JsonError ''Command is required'')), init)
   \<and> ''PING'' \<noteq> []
   \<and> \<not> js_endsWith ''PING'' CRLF
   \<and> js_endsWith (''PING'' @ CRLF) CRLF
   \<and> promises init 0 = None
   \<and> commandQueue (snd (post_send_command (JStr ''PING'') 1000 init))
       = [\<lparr>command = ''PING'' @ CRLF, promise = 0\<rparr>]
   \<and> map_option (map_sum id (\<lambda>w. map_option post_send_command_reply (promises w 0)))
        (exec [(1000, Timeout 0), (1012, WriteDone 0 None)]
           (snd (post_send_command (JStr ''PING'') 1000 init)))
       = Some (Inr (Some (Response 200 (JsonResult (SendResult True ''PING'')))))"
proof -
  have h1: "\<not> truthy JNull" by simp
  have h2: "''PING'' \<noteq> []" by simp
  have h3: "\<not> js_endsWith ''PING'' CRLF" by (simp add: js_endsWith_def CRLF_def)
  have h4: "promises init 0 = None" by (simp add: init_def)
  have h5: "(0::int) \<le> 1000 \<and> 1000 + max 0 (300 - 1000) \<le> (1000::int) \<and> (1000::int) \<le> 1012"
    by simp
  have h6: "js_endsWith (''PING'' @ CRLF) CRLF" by (simp add: js_endsWith_def CRLF_def)
  have h7: "next_promise init = 0" "commandQueue init = []" by (simp_all add: init_def)
  from post_send_command_contract [of 1000 init JNull "''PING''" 0 "''x''" 1000 1000 1012]
    h1 h2 h3 h4 h5 h6 h7
  show ?thesis by simp
qed

text \<open>
  C8. Broadcasting to no subscriber sends nothing, and with no pending status check
  the data callback leaves the state as it was. For any subscribers the broadcast
  returns without raising, sends the line to exactly the open ones in their order,
  and leaves the subscriber set unchanged; a subscriber whose \<open>readyState\<close> is not 1
  does not change what is sent.
\<close>

theorem broadcast_skips_closed:
  "broadcast data [] = Inr []
   \<and> broadcast data cs
       = Inr (map (\<lambda>c. (client_id c, data)) (filter (\<lambda>c. readyState c = 1) cs))
   \<and> (\<exists>w'. on_data data w = Inr w'
         \<and> connectedClients w' = connectedClients w
         \<and> delivered w' = delivered w
              @ map (\<lambda>c. (client_id c, data)) (filter (\<lambda>c. readyState c = 1) (connectedClients w)))
   \<and> (connectedClients w = [] \<and> listeners w = [] \<longrightarrow> on_data data w = Inr w)
   \<and> (readyState c \<noteq> 1 \<longrightarrow> broadcast data (xs @ c # ys) = broadcast data (xs @ ys))"
proof -
  have a: "broadcast data [] = Inr []" by simp
  have b: "broadcast data cs
       = Inr (map (\<lambda>c. (client_id c, data)) (filter (\<lambda>c. readyState c = 1) cs))"
    by (rule broadcast_eq)
  have c: "\<exists>w'. on_data data w = Inr w'
         \<and> connectedClients w' = connectedClients w
         \<and> delivered w' = delivered w
              @ map (\<lambda>c. (client_id c, data)) (filter (\<lambda>c. readyState c = 1) (connectedClients w))"
    by (simp add: on_data_def broadcast_eq)
  have d: "connectedClients w = [] \<and> listeners w = [] \<longrightarrow> on_data data w = Inr w"
    by (simp add: on_data_def)
  have e: "readyState c \<noteq> 1 \<longrightarrow> broadcast data (xs @ c # ys) = broadcast data (xs @ ys)"
    by (simp add: broadcast_eq)
  from a b c d e show ?thesis by blast
qed

theorem broadcast_skips_closed_witness:
  "connectedClients init = [] \<and> listeners init = [] \<and> on_data ''X001A[3]'' init = Inr init
   \<and> readyState \<lparr>client_id = 1, readyState = 3\<rparr> \<noteq> 1
   \<and> broadcast ''X001A[3]''
        [\<lparr>client_id = 0, readyState = 1\<rparr>, \<lparr>client_id = 1, readyState = 3\<rparr>,
         \<lparr>client_id = 2, readyState = 1\<rparr>]
       = Inr [(0, ''X001A[3]''), (2, ''X001A[3]'')]"
proof -
  have h: "connectedClients init = [] \<and> listeners init = []" by (simp add: init_def)
  have k: "readyState \<lparr>client_id = 1, readyState = 3\<rparr> \<noteq> 1" by simp
  from broadcast_skips_closed [of "''X001A[3]''" "[]" init "\<lparr>client_id = 1, readyState = 3\<rparr>"
      "[\<lparr>client_id = 0, readyState = 1\<rparr>]" "[\<lparr>client_id = 2, readyState = 1\<rparr>]"] h k
  show ?thesis by (simp add: ws_send_def)
qed

text \<open>
  C9. \<^verbatim>\<open>checkRFIDStatus\<close> hands its command to the port at the time of the call,
  whatever \<open>lastCommandTime\<close> is, and leaves \<open>commandQueue\<close>, \<open>isProcessingQueue\<close>,
  \<open>lastCommandTime\<close>, the timers and the outstanding writes of the dispatcher
  unchanged, as does the completion callback of its write; the handler of
  \<^verbatim>\<open>GET /check-rfid-status\<close> does nothing else before awaiting. A status check made
  in the same millisecond as a write of the dispatcher reaches the port with no
  spacing.
\<close>

theorem status_check_bypasses_dispatcher:
  "commandQueue (snd (checkRFIDStatus ch t w)) = commandQueue w
   \<and> isProcessingQueue (snd (checkRFIDStatus ch t w)) = isProcessingQueue w
   \<and> lastCommandTime (snd (checkRFIDStatus ch t w)) = lastCommandTime w
   \<and> timers (snd (checkRFIDStatus ch t w)) = timers w
   \<and> inflight (snd (checkRFIDStatus ch t w)) = inflight w
   \<and> port_writes (snd (checkRFIDStatus ch t w))
       = port_writes w @ [(t, Direct, ''X'' @ ch @ ''B[]'' @ CRLF)]
   \<and> get_check_rfid_status None t w = (Await (next_send_promise w), snd (checkRFIDStatus ''008'' t w))
   \<and> get_check_rfid_status (Some (x # xs)) t w
       = (Await (next_send_promise w), snd (checkRFIDStatus (x # xs) t w))
   \<and> commandQueue (send_write_callback p err w) = commandQueue w
   \<and> isProcessingQueue (send_write_callback p err w) = isProcessingQueue w
   \<and> lastCommandTime (send_write_callback p err w) = lastCommandTime w
   \<and> port_writes (final [(1000, QueueCommand ''A''), (1000, Timeout 0), (1000, CheckRFIDStatus ''008'')])
       = [(1000, Queued, ''A''), (1000, Direct, ''X008B[]'' @ CRLF)]"
  by (simp add: checkRFIDStatus_def sendCommand_def get_check_rfid_status_def Let_def
      send_write_callback_def run_defs split: option.splits)

text \<open>
  C10. \<^verbatim>\<open>GET /check-rfid-status\<close> answers 500 with \<open>Failed to check RFID status\<close>
  whenever the status is falsy: when the write was rejected, and when the response
  line is the empty string, although \<open>getStickers\<close> maps the empty string to the
  empty list. It answers 200 only for a non-empty response line, with the tags of
  that line, and does so for every non-empty line.
\<close>

theorem check_rfid_status_empty_line_is_500:
  "(\<not> truthy status \<longrightarrow>
      check_rfid_status_respond status = Inr (Response 500 (Text ''Failed to check RFID status'')))
   \<and> check_rfid_status_reply (Resolved [])
       = Inr (Response 500 (Text ''Failed to check RFID status''))
   \<and> check_rfid_status_reply (Rejected e)
       = Inr (Response 500 (Text ''Failed to check RFID status''))
   \<and> getStickers [] = Inr []
   \<and> (check_rfid_status_reply outcome = Inr (Response 200 b) \<longrightarrow>
        (\<exists>line tags. outcome = Resolved line \<and> line \<noteq> [] \<and> getStickers line = Inr tags
                     \<and> b = JsonTags tags))
   \<and> (line \<noteq> [] \<longrightarrow>
        (\<exists>tags. getStickers line = Inr tags
              \<and> check_rfid_status_reply (Resolved line) = Inr (Response 200 (JsonTags tags))))"
proof -
  have a: "\<not> truthy status \<longrightarrow>
      check_rfid_status_respond status = Inr (Response 500 (Text ''Failed to check RFID status''))"
    by (simp add: check_rfid_status_respond_def)
  have b: "check_rfid_status_reply (Resolved [])
       = Inr (Response 500 (Text ''Failed to check RFID status''))"
    by (simp add: check_rfid_status_reply_def check_rfid_status_respond_def)
  have c: "check_rfid_status_reply (Rejected e)
       = Inr (Response 500 (Text ''Failed to check RFID status''))"
    by (simp add: check_rfid_status_reply_def check_rfid_status_respond_def)
  have d: "getStickers [] = Inr []" by (simp add: getStickers_def)
  have f: "line \<noteq> [] \<longrightarrow>
        (\<exists>tags. getStickers line = Inr tags
              \<and> check_rfid_status_reply (Resolved line) = Inr (Response 200 (JsonTags tags)))"
    for line
    using getStickers_returns [of line]
    by (auto simp: check_rfid_status_reply_def check_rfid_status_respond_def)
  have g: "check_rfid_status_reply outcome = Inr (Response 200 b) \<longrightarrow>
        (\<exists>line tags. outcome = Resolved line \<and> line \<noteq> [] \<and> getStickers line = Inr tags
                     \<and> b = JsonTags tags)"
  proof (cases outcome)
    case (Resolved line)
    with getStickers_returns [of line] show ?thesis
      by (auto simp: check_rfid_status_reply_def check_rfid_status_respond_def split: if_splits)
  next
    case (Rejected e)
    then show ?thesis
      by (simp add: check_rfid_status_reply_def check_rfid_status_respond_def)
  qed
  from a b c d f g show ?thesis by blast
qed

theorem check_rfid_status_empty_line_is_500_witness:
  "\<not> truthy (JStr [])
   \<and> check_rfid_status_respond (JStr []) = Inr (Response 500 (Text ''Failed to check RFID status''))
   \<and> ''X008B[d001]'' \<noteq> []
   \<and> check_rfid_status_reply (Resolved ''X008B[d001]'') = Inr (Response 200 (JsonTags [''mist'']))"
proof -
  have h1: "\<not> truthy (JStr [])" by simp
  have h2: "''X008B[d001]'' \<noteq> []" by simp
  have h3: "getStickers ''X008B[d001]'' = Inr [''mist'']"
    by (simp add: getStickers_def sticker_tag_def)
  from check_rfid_status_empty_line_is_500
    [of "JStr []" "''e''" "Resolved ''X008B[d001]''" "JsonTags [''mist'']" "''X008B[d001]''"]
    h1 h2 h3
  show ?thesis by auto
qed

section \<open>Properties of the status parser\<close>

text \<open>
  C4. \<open>getStickers\<close> returns a tag list on every string (no branch of it raises), and
  it maps the four documented inputs to the documented outputs:
  \<open>X008B[d001 d000 d002]\<close> to mist, mask; \<open>X008B[]\<close> to nothing; any string
  without \<open>[\<close> to nothing; \<open>[d000]\<close> to nothing.
\<close>

theorem getStickers_total_and_vectors:
  "(\<exists>tags. getStickers s = Inr tags)
   \<and> getStickers ''X008B[d001 d000 d002]'' = Inr [''mist'', ''mask'']
   \<and> getStickers ''X008B[]'' = Inr []
   \<and> (CHR ''['' \<notin> set s \<longrightarrow> getStickers s = Inr [])
   \<and> getStickers ''[d000]'' = Inr []"
proof -
  have total: "\<exists>tags. getStickers s = Inr tags"
  proof (cases "CHR ''['' \<in> set s")
    case True
    then show ?thesis by (simp add: getStickers_unfold)
  next
    case False
    then show ?thesis by (simp add: getStickers_no_bracket)
  qed
  have v1: "getStickers ''X008B[d001 d000 d002]'' = Inr [''mist'', ''mask'']"
    by (simp add: getStickers_def sticker_tag_def)
  have v2: "getStickers ''X008B[]'' = Inr []"
    by (simp add: getStickers_def sticker_tag_def)
  have v3: "CHR ''['' \<notin> set s \<longrightarrow> getStickers s = Inr []"
    by (simp add: getStickers_no_bracket)
  have v4: "getStickers ''[d000]'' = Inr []"
    by (simp add: getStickers_def sticker_tag_def)
  from total v1 v2 v3 v4 show ?thesis by blast
qed

theorem getStickers_total_and_vectors_witness:
  "CHR ''['' \<notin> set ''X008B'' \<and> getStickers ''X008B'' = Inr []
   \<and> getStickers ''X008B[d001 d000 d002]'' = Inr [''mist'', ''mask'']"
  using getStickers_total_and_vectors [of "''X008B''"] by simp

text \<open>
  C5, as stated: every \<open>d\<close> of a token is stripped before the \<open>000\<close> filter and the
  tag table are applied. The source calls \<^verbatim>\<open>replace('d', '')\<close>, which removes one
  occurrence: the token \<open>dd001\<close> becomes \<open>d001\<close> and is tagged mask, where stripping
  every \<open>d\<close> gives \<open>001\<close> and mist.
\<close>

theorem getStickers_strip_every_d_counterexample:
  "getStickers ''X008B[dd001]'' = Inr [''mask'']
   \<and> getStickers_spec ''X008B[dd001]'' = [''mist'']"
  by (simp add: getStickers_def getStickers_spec_def bracketed_def strip_every_d_def
      sticker_tag_def)

text \<open>
  C5, amended: for every line containing \<open>[\<close>, the result is obtained from the
  non-empty tokens of the bracketed text (split on single spaces) by removing the
  first occurrence of \<open>d\<close> from each token, then dropping the tokens equal to
  \<open>000\<close>, then mapping \<open>001\<close> to mist and anything else to mask.
\<close>

theorem getStickers_strips_first_d:
  "CHR ''['' \<in> set s \<Longrightarrow>
   getStickers s =
     Inr (map (\<lambda>x. if x = ''001'' then ''mist'' else ''mask'')
           (filter (\<lambda>x. x \<noteq> ''000'')
             (map (remove1 CHR ''d'')
               (filter (\<lambda>x. x \<noteq> []) (js_split CHR '' '' (bracketed s))))))"
proof -
  assume "CHR ''['' \<in> set s"
  then have "getStickers s =
     Inr (map sticker_tag
           (filter (\<lambda>x. x \<noteq> ''000'')
             (map (remove1 CHR ''d'')
               (filter (\<lambda>x. x \<noteq> []) (js_split CHR '' '' (bracketed s))))))"
    by (rule getStickers_unfold)
  moreover have "sticker_tag = (\<lambda>x. if x = ''001'' then ''mist'' else ''mask'')"
    by (rule ext) (simp add: sticker_tag_def)
  ultimately show ?thesis by simp
qed

theorem getStickers_strips_first_d_witness:
  "CHR ''['' \<in> set ''X008B[dd001 d000 d0d00]''
   \<and> getStickers ''X008B[dd001 d000 d0d00]'' = Inr [''mask'', ''mask'']"
  using getStickers_strips_first_d [of "''X008B[dd001 d000 d0d00]''"]
  by (simp add: bracketed_def)

end
